theory Spec2Isabelle
  imports Main "HOL-Library.Word"
begin

unbundle bit_operations_syntax

section \<open>Configuration (bank.c, lines 24-35)\<close>

definition MAX_ACCOUNTS :: nat where "MAX_ACCOUNTS = 1024"
definition MAX_NAME_LEN :: nat where "MAX_NAME_LEN = 32"
definition MAX_PASS_LEN :: nat where "MAX_PASS_LEN = 64"
definition MAX_AGENCY_LEN :: nat where "MAX_AGENCY_LEN = 8"
definition MAX_PIX_LEN :: nat where "MAX_PIX_LEN = 64"
definition TX_LOG_SIZE :: nat where "TX_LOG_SIZE = 256"
definition TX_NOTE_LEN :: nat where "TX_NOTE_LEN = 40"
definition PIX_TABLE_BITS :: nat where "PIX_TABLE_BITS = 11"
definition PIX_TABLE_SIZE :: nat where "PIX_TABLE_SIZE = 2 ^ 11"

section \<open>Types (bank.c, lines 38-79)\<close>

text \<open>
  \<^verbatim>\<open>cents_t\<close> is \<^verbatim>\<open>int64_t\<close>: a 64-bit word read as two's complement. Additions and
  subtractions wrap around, as the compiled program's do; comparisons are the signed ones
  (\<open>\<le>s\<close>, \<open><s\<close>), and \<open>sint\<close> reads the value.
\<close>

type_synonym cents_t = "64 word"

text \<open>
  The enumeration starts at 1. \<open>TX_UNSET\<close> stands for the value 0 that \<^verbatim>\<open>memset\<close>
  leaves in a log entry that was never written; \<^verbatim>\<open>txlog_push\<close> never stores it.
\<close>

datatype tx_type_t =
  TX_UNSET | TX_DEPOSIT | TX_WITHDRAW | TX_TRANSFER_OUT | TX_TRANSFER_IN | TX_CREDIT_ADV | TX_MISC

record tx_t =
  tx_type :: tx_type_t
  tx_amount :: cents_t
  tx_note :: string

record txlog_t =
  entries :: "tx_t list"
  head :: nat
  count :: nat

record Account =
  username :: string
  password :: string
  agency :: string
  balance :: cents_t
  credit_limit :: cents_t
  credit_used :: cents_t
  pix_key :: string
  txlog :: txlog_t
  used :: bool

text \<open>
  The globals: the account array, the number of accounts, and the PIX table, whose slots
  hold an account index plus one (0 is an empty slot).
\<close>

record bank =
  accounts :: "Account list"
  account_count :: nat
  pix_table :: "int list"

definition zero_tx :: tx_t where
  "zero_tx = \<lparr>tx_type = TX_UNSET, tx_amount = 0, tx_note = []\<rparr>"

definition zero_txlog :: txlog_t where
  "zero_txlog = \<lparr>entries = replicate TX_LOG_SIZE zero_tx, head = 0, count = 0\<rparr>"

definition zero_account :: Account where
  "zero_account = \<lparr>username = [], password = [], agency = [], balance = 0,
     credit_limit = 0, credit_used = 0, pix_key = [], txlog = zero_txlog, used = False\<rparr>"

text \<open>The static storage at program start: every byte is zero.\<close>

definition bank0 :: bank where
  "bank0 = \<lparr>accounts = replicate MAX_ACCOUNTS zero_account, account_count = 0,
     pix_table = replicate PIX_TABLE_SIZE 0\<rparr>"

section \<open>Utilities (bank.c, lines 99-115)\<close>

text \<open>
  Strings are C strings: a \<open>string\<close> of the model is the text before the terminating NUL.
  \<^verbatim>\<open>safe_strcpy\<close> copies at most \<open>dstcap - 1\<close> characters; with \<open>dstcap = 0\<close> it leaves the
  destination as it is.
\<close>

definition safe_strcpy :: "string \<Rightarrow> string \<Rightarrow> nat \<Rightarrow> string" where
  "safe_strcpy dst src dstcap = (if dstcap = 0 then dst else take (dstcap - 1) src)"

text \<open>
  \<^verbatim>\<open>readln\<close> (and the password prompt, which reads the same way) gives the typed line
  without its newline, cut to the buffer: at most \<open>cap - 1\<close> characters.
\<close>

definition readln :: "string \<Rightarrow> nat \<Rightarrow> string" where
  "readln line cap = take (cap - 1) line"

text \<open>\<^verbatim>\<open>snprintf(buf, cap, ...)\<close> keeps the first \<open>cap - 1\<close> characters of the formatted text.\<close>

definition snprintf :: "nat \<Rightarrow> string \<Rightarrow> string" where
  "snprintf cap text = take (cap - 1) text"

section \<open>Money parsing and formatting (bank.c, lines 146-208)\<close>

definition is_digit :: "char \<Rightarrow> bool" where
  "is_digit c = (48 \<le> (of_char c :: nat) \<and> (of_char c :: nat) \<le> 57)"

definition digit_val :: "char \<Rightarrow> cents_t" where
  "digit_val c = of_nat (of_char c - 48)"

text \<open>\<^verbatim>\<open>isspace\<close> in the C locale: space, \<^verbatim>\<open>\t \n \v \f \r\<close>.\<close>

definition c_isspace :: "char \<Rightarrow> bool" where
  "c_isspace c = ((of_char c :: nat) = 32 \<or> (9 \<le> (of_char c :: nat) \<and> (of_char c :: nat) \<le> 13))"

text \<open>
  The whole-part loop. It returns the rest of the text and the accumulated value, or
  \<open>None\<close> where the source returns 0 from inside the loop (the guard against
  \<open>whole > 2^60\<close>). The counter \<^verbatim>\<open>digits\<close> of the source is never read and is left out.
\<close>

fun parse_whole :: "string \<Rightarrow> cents_t \<Rightarrow> (string \<times> cents_t) option" where
  "parse_whole [] whole = Some ([], whole)"
| "parse_whole (c # p) whole =
     (if is_digit c then
        (let w = whole * 10 + digit_val c in
         if (2 ^ 60 :: cents_t) <s w then None else parse_whole p w)
      else Some (c # p, whole))"

text \<open>The fractional loop: at most two digits are accumulated.\<close>

fun parse_frac :: "string \<Rightarrow> cents_t \<Rightarrow> nat \<Rightarrow> string \<times> cents_t \<times> nat" where
  "parse_frac [] frac fdigits = ([], frac, fdigits)"
| "parse_frac (c # p) frac fdigits =
     (if is_digit c \<and> fdigits < 2 then parse_frac p (frac * 10 + digit_val c) (fdigits + 1)
      else (c # p, frac, fdigits))"

definition parse_money_to_cents :: "string \<Rightarrow> cents_t option" where
  "parse_money_to_cents s =
     (if s = [] then None
      else
        let (sign, p) =
              (if hd s = CHR ''+'' then (1 :: cents_t, tl s)
               else if hd s = CHR ''-'' then (- 1, tl s)
               else (1, s))
        in case parse_whole p 0 of
             None \<Rightarrow> None
           | Some (p1, whole) \<Rightarrow>
               let (p2, frac) =
                     (case p1 of
                        c # r \<Rightarrow>
                          if c = CHR ''.'' then
                            (let (q, f, fdigits) = parse_frac r 0 0;
                                 f' = (if fdigits = 1 then f * 10 else f)
                             in (dropWhile is_digit q, f'))
                          else (p1, 0)
                      | [] \<Rightarrow> (p1, 0));
                   p3 = dropWhile c_isspace p2
               in if p3 \<noteq> [] then None else Some (sign * (whole * 100 + frac)))"

text \<open>
  \<^verbatim>\<open>read_cents_prompt\<close> on one typed line: the amount, or \<open>None\<close> where the source
  prints "Invalid number." and prompts again.
\<close>

definition read_cents_prompt :: "string \<Rightarrow> cents_t option" where
  "read_cents_prompt line = parse_money_to_cents (readln line 128)"

text \<open>Decimal printing, for \<^verbatim>\<open>%lld\<close> and \<^verbatim>\<open>%02lld\<close>.\<close>

definition digit_char :: "nat \<Rightarrow> char" where
  "digit_char d = ''0123456789'' ! d"

fun dec_nat :: "nat \<Rightarrow> string" where
  "dec_nat n = (if n < 10 then [digit_char n] else dec_nat (n div 10) @ [digit_char (n mod 10)])"

definition print_i64 :: "int \<Rightarrow> string" where
  "print_i64 x = (if x < 0 then CHR ''-'' # dec_nat (nat (- x)) else dec_nat (nat x))"

definition print_i64_02 :: "int \<Rightarrow> string" where
  "print_i64_02 x = (let t = print_i64 x in replicate (2 - length t) CHR ''0'' @ t)"

text \<open>C's division and remainder truncate towards zero.\<close>

definition c_div :: "int \<Rightarrow> int \<Rightarrow> int" where
  "c_div a b = sgn a * sgn b * (\<bar>a\<bar> div \<bar>b\<bar>)"

definition c_mod :: "int \<Rightarrow> int \<Rightarrow> int" where
  "c_mod a b = a - b * c_div a b"

text \<open>
  \<^verbatim>\<open>cents_to_str\<close>: the text written to the buffer, or \<open>None\<close> when \<open>outcap = 0\<close> and
  nothing is written. The negation \<open>c = -c\<close> is the 64-bit one.
\<close>

definition cents_to_str :: "cents_t \<Rightarrow> nat \<Rightarrow> string option" where
  "cents_to_str c outcap =
     (if outcap = 0 then None
      else
        let neg = (c <s 0);
            c' = (if neg then - c else c);
            whole = c_div (sint c') 100;
            frac = c_mod (sint c') 100
        in if neg then Some (snprintf outcap (''-'' @ print_i64 whole @ ''.'' @ print_i64_02 frac))
           else Some (snprintf outcap (print_i64 whole @ ''.'' @ print_i64_02 frac)))"

text \<open>The callers' use, with a buffer of 64 (or 32) bytes that is always written.\<close>

definition cents_str :: "cents_t \<Rightarrow> nat \<Rightarrow> string" where
  "cents_str c cap = (case cents_to_str c cap of Some t \<Rightarrow> t | None \<Rightarrow> [])"

section \<open>Transaction log (bank.c, lines 211-244)\<close>

definition txlog_push :: "txlog_t \<Rightarrow> tx_type_t \<Rightarrow> cents_t \<Rightarrow> string \<Rightarrow> txlog_t" where
  "txlog_push log ty amt nt =
     (let (idx, log1) =
            (if count log < TX_LOG_SIZE
             then ((head log + count log) mod TX_LOG_SIZE, log\<lparr>count := count log + 1\<rparr>)
             else (head log, log\<lparr>head := (head log + 1) mod TX_LOG_SIZE\<rparr>))
      in log1\<lparr>entries := (entries log1)[idx :=
            \<lparr>tx_type = ty, tx_amount = amt,
             tx_note = safe_strcpy (tx_note (entries log1 ! idx)) nt TX_NOTE_LEN\<rparr>]\<rparr>)"

text \<open>The entries that the loop of \<^verbatim>\<open>print_txlog\<close> visits, in the order it visits them.\<close>

definition txlog_iter :: "txlog_t \<Rightarrow> tx_t list" where
  "txlog_iter log = map (\<lambda>i. entries log ! ((head log + i) mod TX_LOG_SIZE)) [0 ..< count log]"

definition tx_type_name :: "tx_type_t \<Rightarrow> string" where
  "tx_type_name ty =
     (case ty of
        TX_DEPOSIT \<Rightarrow> ''DEPOSIT''
      | TX_WITHDRAW \<Rightarrow> ''WITHDRAW''
      | TX_TRANSFER_OUT \<Rightarrow> ''XFER_OUT''
      | TX_TRANSFER_IN \<Rightarrow> ''XFER_IN''
      | TX_CREDIT_ADV \<Rightarrow> ''CREDIT''
      | _ \<Rightarrow> ''MISC'')"

text \<open>The lines that \<^verbatim>\<open>print_txlog\<close> prints.\<close>

definition print_txlog :: "txlog_t \<Rightarrow> string list" where
  "print_txlog log =
     (if count log = 0 then [''<no transactions>'']
      else map (\<lambda>t. ''['' @ tx_type_name (tx_type t) @ ''] '' @ cents_str (tx_amount t) 32
                    @ ''  '' @ tx_note t) (txlog_iter log))"

section \<open>PIX hash table (bank.c, lines 247-313)\<close>

definition fnv1a_hash :: "string \<Rightarrow> 64 word" where
  "fnv1a_hash s =
     fold (\<lambda>c h. (h XOR of_nat (of_char c)) * 1099511628211) s 1469598103934665603"

text \<open>The first probed slot: \<^verbatim>\<open>(uint32_t)h & (PIX_TABLE_SIZE - 1)\<close>.\<close>

definition pix_slot :: "string \<Rightarrow> nat" where
  "pix_slot key = unat ((ucast (fnv1a_hash key) :: 32 word) AND 2047)"

text \<open>The next slot: \<^verbatim>\<open>(idx + 1) & (PIX_TABLE_SIZE - 1)\<close>, on an index below the table size.\<close>

definition next_slot :: "nat \<Rightarrow> nat" where
  "next_slot idx = (idx + 1) mod PIX_TABLE_SIZE"

text \<open>
  The three loops of the table may run forever (a table with no empty slot and no match):
  they are partial functions, and \<open>None\<close> is a loop that does not return.
\<close>

partial_function (option) pix_find_loop :: "bank \<Rightarrow> string \<Rightarrow> nat \<Rightarrow> int option" where
  "pix_find_loop s key idx =
     (let v = pix_table s ! idx in
      if v = 0 then Some (- 1)
      else
        let ai = v - 1 in
        if 0 \<le> ai \<and> ai < int (account_count s) \<and> used (accounts s ! nat ai)
           \<and> pix_key (accounts s ! nat ai) \<noteq> [] \<and> pix_key (accounts s ! nat ai) = key
        then Some ai
        else pix_find_loop s key (next_slot idx))"

definition pix_find :: "bank \<Rightarrow> string \<Rightarrow> int option" where
  "pix_find s key = (if key = [] then Some (- 1) else pix_find_loop s key (pix_slot key))"

partial_function (option) pix_insert_loop :: "bank \<Rightarrow> string \<Rightarrow> int \<Rightarrow> nat \<Rightarrow> bank option" where
  "pix_insert_loop s key account_index idx =
     (if pix_table s ! idx \<noteq> 0 then
        (let ai = pix_table s ! idx - 1 in
         if 0 \<le> ai \<and> ai < int (account_count s) \<and> used (accounts s ! nat ai)
            \<and> pix_key (accounts s ! nat ai) = key
         then Some (s\<lparr>pix_table := (pix_table s)[idx := account_index + 1]\<rparr>)
         else pix_insert_loop s key account_index (next_slot idx))
      else Some (s\<lparr>pix_table := (pix_table s)[idx := account_index + 1]\<rparr>))"

definition pix_insert :: "bank \<Rightarrow> string \<Rightarrow> int \<Rightarrow> bank option" where
  "pix_insert s key account_index =
     (if key = [] then Some s else pix_insert_loop s key account_index (pix_slot key))"

text \<open>The inner loop of \<^verbatim>\<open>pix_remove\<close>: clear and reinsert the run of occupied slots from \<open>j\<close>.\<close>

partial_function (option) pix_rehash_loop :: "bank \<Rightarrow> nat \<Rightarrow> bank option" where
  "pix_rehash_loop s j =
     (if pix_table s ! j \<noteq> 0 then
        (let re_ai = pix_table s ! j - 1;
             s1 = s\<lparr>pix_table := (pix_table s)[j := 0]\<rparr>
         in Option.bind
              (if 0 \<le> re_ai \<and> re_ai < int (account_count s1) \<and> used (accounts s1 ! nat re_ai)
                  \<and> pix_key (accounts s1 ! nat re_ai) \<noteq> []
               then pix_insert s1 (pix_key (accounts s1 ! nat re_ai)) re_ai
               else Some s1)
              (\<lambda>s2. pix_rehash_loop s2 (next_slot j)))
      else Some s)"

partial_function (option) pix_remove_loop :: "bank \<Rightarrow> string \<Rightarrow> nat \<Rightarrow> bank option" where
  "pix_remove_loop s key idx =
     (let v = pix_table s ! idx in
      if v = 0 then Some s
      else
        let ai = v - 1 in
        if 0 \<le> ai \<and> ai < int (account_count s) \<and> used (accounts s ! nat ai)
           \<and> pix_key (accounts s ! nat ai) \<noteq> [] \<and> pix_key (accounts s ! nat ai) = key
        then pix_rehash_loop (s\<lparr>pix_table := (pix_table s)[idx := 0]\<rparr>) (next_slot idx)
        else pix_remove_loop s key (next_slot idx))"

definition pix_remove :: "bank \<Rightarrow> string \<Rightarrow> bank option" where
  "pix_remove s key = (if key = [] then Some s else pix_remove_loop s key (pix_slot key))"

section \<open>Account helpers (bank.c, lines 316-325)\<close>

text \<open>The first index below \<open>account_count\<close> whose account is in use and has the name, or -1.\<close>

definition find_account_by_name :: "bank \<Rightarrow> string \<Rightarrow> int" where
  "find_account_by_name s name =
     (case List.find (\<lambda>i. used (accounts s ! i) \<and> username (accounts s ! i) = name)
             [0 ..< account_count s] of
        Some i \<Rightarrow> int i
      | None \<Rightarrow> - 1)"

text \<open>
  An \<^verbatim>\<open>Account *\<close> of the source is an index into the account array; a write through the
  pointer is an update of that element.
\<close>

definition upd_account :: "bank \<Rightarrow> nat \<Rightarrow> (Account \<Rightarrow> Account) \<Rightarrow> bank" where
  "upd_account s i f = s\<lparr>accounts := (accounts s)[i := f (accounts s ! i)]\<rparr>"

definition log_account_tx :: "bank \<Rightarrow> nat \<Rightarrow> tx_type_t \<Rightarrow> cents_t \<Rightarrow> string \<Rightarrow> bank" where
  "log_account_tx s i ty amt nt =
     upd_account s i (\<lambda>a. a\<lparr>txlog := txlog_push (txlog a) ty amt nt\<rparr>)"

section \<open>Banking operations (bank.c, lines 328-422)\<close>

text \<open>
  Every operation returns the line it prints and the state it leaves. \<open>withdraw\<close> and
  \<open>transfer\<close> are \<^verbatim>\<open>withdraw_\<close> and \<^verbatim>\<open>transfer_\<close> of the source (a name cannot end
  in an underscore here).
\<close>

definition deposit :: "bank \<Rightarrow> nat \<Rightarrow> cents_t \<Rightarrow> string \<times> bank" where
  "deposit s i amt =
     (if amt \<le>s 0 then (''Invalid deposit amount.'', s)
      else
        let s1 = upd_account s i (\<lambda>a. a\<lparr>balance := balance a + amt\<rparr>);
            nb = cents_str amt 64;
            nt = snprintf TX_NOTE_LEN (''Deposited '' @ nb);
            s2 = log_account_tx s1 i TX_DEPOSIT amt nt;
            bal = cents_str (balance (accounts s2 ! i)) 64
        in (''Deposited '' @ nb @ ''. Balance: '' @ bal, s2))"

definition withdraw :: "bank \<Rightarrow> nat \<Rightarrow> cents_t \<Rightarrow> string \<times> bank" where
  "withdraw s i amt =
     (if amt \<le>s 0 then (''Invalid withdrawal amount.'', s)
      else if amt \<le>s balance (accounts s ! i) then
        let s1 = upd_account s i (\<lambda>a. a\<lparr>balance := balance a - amt\<rparr>);
            nb = cents_str amt 64;
            nt = snprintf TX_NOTE_LEN (''Withdrew '' @ nb);
            s2 = log_account_tx s1 i TX_WITHDRAW amt nt;
            bal = cents_str (balance (accounts s2 ! i)) 64
        in (''Withdrew '' @ nb @ ''. Balance: '' @ bal, s2)
      else (''Insufficient funds.'', s))"

text \<open>
  \<open>transfer\<close> is \<open>None\<close> only when the lookup of the target key does not return. The
  sender and the target are two indices into the same array, and the writes happen in the
  source's order.
\<close>

definition transfer :: "bank \<Rightarrow> nat \<Rightarrow> cents_t \<Rightarrow> string \<Rightarrow> (string \<times> bank) option" where
  "transfer s i amt key =
     (if pix_key (accounts s ! i) = [] then
        Some (''You must set your own PIX key before making transfers.'', s)
      else if amt \<le>s 0 then Some (''Invalid transfer amount.'', s)
      else if key = pix_key (accounts s ! i) then
        (let available = credit_limit (accounts s ! i) - credit_used (accounts s ! i) in
         if amt \<le>s available then
           (let s1 = upd_account s i (\<lambda>a. a\<lparr>credit_used := credit_used a + amt\<rparr>);
                s2 = upd_account s1 i (\<lambda>a. a\<lparr>balance := balance a + amt\<rparr>);
                nb = cents_str amt 64;
                nt = snprintf TX_NOTE_LEN (''Credit advance '' @ nb);
                s3 = log_account_tx s2 i TX_CREDIT_ADV amt nt
            in Some (''Added '' @ nb @ '' to balance using credit.'', s3))
         else Some (''Not enough credit available.'', s))
      else
        (case pix_find s key of
           None \<Rightarrow> None
         | Some tidx \<Rightarrow>
             if tidx < 0 then Some (''Target PIX key not found or not set.'', s)
             else
               (let t = nat tidx in
                if amt \<le>s balance (accounts s ! i) then
                  (let s1 = upd_account s i (\<lambda>a. a\<lparr>balance := balance a - amt\<rparr>);
                       s2 = upd_account s1 t (\<lambda>a. a\<lparr>balance := balance a + amt\<rparr>);
                       amtbuf = cents_str amt 64;
                       note_out = snprintf TX_NOTE_LEN
                         (''Transferred '' @ amtbuf @ '' to '' @ username (accounts s2 ! t));
                       note_in = snprintf TX_NOTE_LEN
                         (''Received '' @ amtbuf @ '' from '' @ username (accounts s2 ! i));
                       s3 = log_account_tx s2 i TX_TRANSFER_OUT amt note_out;
                       s4 = log_account_tx s3 t TX_TRANSFER_IN amt note_in
                   in Some (''Transferred '' @ amtbuf @ '' to '' @ username (accounts s4 ! t) @ ''.'',
                            s4))
                else Some (''Insufficient funds for transfer.'', s))))"

definition change_credit_limit :: "bank \<Rightarrow> nat \<Rightarrow> cents_t \<Rightarrow> string \<times> bank" where
  "change_credit_limit s i new_limit =
     (if credit_used (accounts s ! i) \<le>s new_limit then
        let s1 = upd_account s i (\<lambda>a. a\<lparr>credit_limit := new_limit\<rparr>);
            nb = cents_str new_limit 64;
            nt = snprintf TX_NOTE_LEN (''Credit limit set to '' @ nb);
            s2 = log_account_tx s1 i TX_MISC 0 nt
        in (''Credit limit updated to '' @ nb, s2)
      else (''New limit cannot be lower than current credit used.'', s))"

definition change_password :: "bank \<Rightarrow> nat \<Rightarrow> string \<Rightarrow> string \<Rightarrow> string \<times> bank" where
  "change_password s i oldp newp =
     (if password (accounts s ! i) \<noteq> oldp then (''Incorrect current password.'', s)
      else if newp = [] then (''New password cannot be empty.'', s)
      else
        let s1 = upd_account s i (\<lambda>a. a\<lparr>password := safe_strcpy (password a) newp MAX_PASS_LEN\<rparr>);
            s2 = log_account_tx s1 i TX_MISC 0 ''Password changed''
        in (''Password updated successfully.'', s2))"

section \<open>The account menu (bank.c, lines 445-536)\<close>

text \<open>
  Option 6 of the menu, "Set/Update PIX Key", on the typed line. \<open>None\<close> only when a
  table loop does not return.
\<close>

definition menu_set_pix :: "bank \<Rightarrow> nat \<Rightarrow> string \<Rightarrow> (string \<times> bank) option" where
  "menu_set_pix s i line =
     (let pix = readln line MAX_PIX_LEN in
      if pix = [] then Some (''PIX key cannot be empty.'', s)
      else
        (case pix_find s pix of
           None \<Rightarrow> None
         | Some existing \<Rightarrow>
             let my_index = int i in
             if 0 \<le> existing \<and> existing \<noteq> my_index then
               Some (''This PIX key is already registered.'', s)
             else
               Option.bind
                 (if pix_key (accounts s ! i) \<noteq> [] then
                    map_option (\<lambda>r. upd_account r i (\<lambda>a. a\<lparr>pix_key := []\<rparr>))
                      (pix_remove s (pix_key (accounts s ! i)))
                  else Some s)
                 (\<lambda>s2.
                    let s3 = upd_account s2 i
                               (\<lambda>a. a\<lparr>pix_key := safe_strcpy (pix_key a) pix MAX_PIX_LEN\<rparr>)
                    in Option.bind (pix_insert s3 (pix_key (accounts s3 ! i)) my_index)
                         (\<lambda>s4. Some (''PIX key updated successfully.'',
                                     log_account_tx s4 i TX_MISC 0 ''PIX key set/updated'')))))"

text \<open>
  The other input of the menu, one constructor per option, each with the lines typed at
  its prompts. An amount line that does not parse prints "Invalid number." and the prompt
  repeats; the state is not touched.
\<close>

datatype menu_op =
  Op_Deposit string
  | Op_Withdraw string
  | Op_Transfer string string
  | Op_Show_Info
  | Op_View_Tx
  | Op_Set_Pix string
  | Op_Credit_Limit string
  | Op_Password string string

definition show_account_info :: "Account \<Rightarrow> string list" where
  "show_account_info a =
     [''Username: '' @ username a,
      ''Agency: '' @ agency a,
      ''Balance: '' @ cents_str (balance a) 64,
      ''Credit Used: '' @ cents_str (credit_used a) 64 @ '' / '' @ cents_str (credit_limit a) 64,
      ''PIX Key: '' @ (if pix_key a \<noteq> [] then pix_key a else ''Not set'')]"

fun menu_step :: "bank \<Rightarrow> nat \<Rightarrow> menu_op \<Rightarrow> (string list \<times> bank) option" where
  "menu_step s i (Op_Deposit line) =
     (case read_cents_prompt line of
        None \<Rightarrow> Some ([''Invalid number.''], s)
      | Some amt \<Rightarrow> (let (m, r) = deposit s i amt in Some ([m], r)))"
| "menu_step s i (Op_Withdraw line) =
     (case read_cents_prompt line of
        None \<Rightarrow> Some ([''Invalid number.''], s)
      | Some amt \<Rightarrow> (let (m, r) = withdraw s i amt in Some ([m], r)))"
| "menu_step s i (Op_Transfer pixline line) =
     (case read_cents_prompt line of
        None \<Rightarrow> Some ([''Invalid number.''], s)
      | Some amt \<Rightarrow>
          map_option (\<lambda>(m, r). ([m], r)) (transfer s i amt (readln pixline MAX_PIX_LEN)))"
| "menu_step s i Op_Show_Info = Some (show_account_info (accounts s ! i), s)"
| "menu_step s i Op_View_Tx =
     Some (''--- Transaction Log ---'' # print_txlog (txlog (accounts s ! i)), s)"
| "menu_step s i (Op_Set_Pix line) = map_option (\<lambda>(m, r). ([m], r)) (menu_set_pix s i line)"
| "menu_step s i (Op_Credit_Limit line) =
     (case read_cents_prompt line of
        None \<Rightarrow> Some ([''Invalid number.''], s)
      | Some nl \<Rightarrow> (let (m, r) = change_credit_limit s i nl in Some ([m], r)))"
| "menu_step s i (Op_Password oldline newline) =
     (let (m, r) = change_password s i (readln oldline MAX_PASS_LEN) (readln newline MAX_PASS_LEN)
      in Some ([m], r))"

text \<open>The menu loop over the options chosen before logging out.\<close>

fun account_menu :: "bank \<Rightarrow> nat \<Rightarrow> menu_op list \<Rightarrow> bank option" where
  "account_menu s i [] = Some s"
| "account_menu s i (x # xs) =
     (case menu_step s i x of None \<Rightarrow> None | Some (out, r) \<Rightarrow> account_menu r i xs)"

section \<open>Sign up, log in, initialisation (bank.c, lines 539-613)\<close>

definition sign_up :: "bank \<Rightarrow> string \<Rightarrow> string \<Rightarrow> string \<Rightarrow> string \<times> bank" where
  "sign_up s uline pline aline =
     (let uname = readln uline MAX_NAME_LEN in
      if uname = [] then (''Username cannot be empty.'', s)
      else if 0 \<le> find_account_by_name s uname then (''Username already taken.'', s)
      else
        let pw = readln pline MAX_PASS_LEN;
            ag = readln aline MAX_AGENCY_LEN
        in if ag = [] then (''Agency is required.'', s)
           else if MAX_ACCOUNTS \<le> account_count s then (''Account limit reached.'', s)
           else
             (let a = zero_account
                    \<lparr>used := True,
                     username := safe_strcpy [] uname MAX_NAME_LEN,
                     password := safe_strcpy [] pw MAX_PASS_LEN,
                     agency := safe_strcpy [] ag MAX_AGENCY_LEN,
                     balance := 0,
                     credit_limit := 100 * 100,
                     credit_used := 0\<rparr>
              in (''Account registered successfully!'',
                  s\<lparr>accounts := (accounts s)[account_count s := a],
                    account_count := account_count s + 1\<rparr>)))"

definition log_in :: "bank \<Rightarrow> string \<Rightarrow> string \<Rightarrow> menu_op list \<Rightarrow> bank option" where
  "log_in s uline pline ops =
     (let uname = readln uline MAX_NAME_LEN;
          pw = readln pline MAX_PASS_LEN;
          idx = find_account_by_name s uname
      in if 0 \<le> idx \<and> password (accounts s ! nat idx) = pw then account_menu s (nat idx) ops
         else Some s)"

definition sample_account :: "string \<Rightarrow> string \<Rightarrow> Account" where
  "sample_account uname key =
     zero_account
       \<lparr>used := True,
        username := safe_strcpy [] uname MAX_NAME_LEN,
        password := safe_strcpy [] ''pass'' MAX_PASS_LEN,
        agency := safe_strcpy [] ''DF'' MAX_AGENCY_LEN,
        pix_key := safe_strcpy [] key MAX_PIX_LEN,
        credit_limit := 100 * 100,
        balance := 0\<rparr>"

definition init_sample_accounts :: "bank \<Rightarrow> bank option" where
  "init_sample_accounts s =
     (if MAX_ACCOUNTS < account_count s + 2 then Some s
      else
        let i0 = account_count s;
            s1 = s\<lparr>accounts := (accounts s)[i0 := sample_account ''user1'' ''user1pix''],
                   account_count := i0 + 1\<rparr>
        in Option.bind (pix_insert s1 (pix_key (accounts s1 ! i0)) (int i0))
             (\<lambda>s2.
                let i1 = account_count s2;
                    s3 = s2\<lparr>accounts := (accounts s2)[i1 := sample_account ''user2'' ''user2pix''],
                            account_count := i1 + 1\<rparr>
                in pix_insert s3 (pix_key (accounts s3 ! i1)) (int i1)))"

section \<open>The main loop (bank.c, lines 616-646)\<close>

text \<open>The state when the main menu is first shown.\<close>

definition main_init :: "bank option" where
  "main_init = init_sample_accounts (bank0\<lparr>pix_table := replicate PIX_TABLE_SIZE 0\<rparr>)"

datatype event = Register string string string | Login string string "menu_op list"

fun main_step :: "bank \<Rightarrow> event \<Rightarrow> bank option" where
  "main_step s (Register uline pline aline) = Some (snd (sign_up s uline pline aline))"
| "main_step s (Login uline pline ops) = log_in s uline pline ops"

fun main_run :: "bank \<Rightarrow> event list \<Rightarrow> bank option" where
  "main_run s [] = Some s"
| "main_run s (e # es) = (case main_step s e of None \<Rightarrow> None | Some r \<Rightarrow> main_run r es)"

text \<open>The states the program can be in between two choices at the main menu.\<close>

inductive reachable :: "bank \<Rightarrow> bool" where
  reachable_init: "main_init = Some s \<Longrightarrow> reachable s"
| reachable_step: "reachable s \<Longrightarrow> main_step s e = Some r \<Longrightarrow> reachable r"

section \<open>Definitions used to state the properties\<close>

subsection \<open>Transaction ring\<close>

text \<open>
  The record that a push stores: the note is cut to \<open>TX_NOTE_LEN - 1\<close> characters by
  \<^verbatim>\<open>safe_strcpy\<close> (every note the program passes is already that short).
\<close>

definition stored_tx :: "tx_type_t \<times> cents_t \<times> string \<Rightarrow> tx_t" where
  "stored_tx r =
     (case r of (ty, amt, nt) \<Rightarrow>
        \<lparr>tx_type = ty, tx_amount = amt, tx_note = take (TX_NOTE_LEN - 1) nt\<rparr>)"

text \<open>A sequence of pushes, first to last.\<close>

definition push_all :: "txlog_t \<Rightarrow> (tx_type_t \<times> cents_t \<times> string) list \<Rightarrow> txlog_t" where
  "push_all log rs = foldl (\<lambda>l r. case r of (ty, amt, nt) \<Rightarrow> txlog_push l ty amt nt) log rs"

text \<open>The shape of a ring: the array has its size, and the two counters are in range.\<close>

definition ring_ok :: "txlog_t \<Rightarrow> bool" where
  "ring_ok log =
     (length (entries log) = TX_LOG_SIZE \<and> head log < TX_LOG_SIZE \<and> count log \<le> TX_LOG_SIZE)"

subsection \<open>PIX table and bank invariants\<close>

definition slot_at :: "nat \<Rightarrow> nat \<Rightarrow> nat" where
  "slot_at a d = (a + d) mod PIX_TABLE_SIZE"

definition fwd :: "nat \<Rightarrow> nat \<Rightarrow> nat" where
  "fwd a b = (b + PIX_TABLE_SIZE - a) mod PIX_TABLE_SIZE"

definition key_of :: "bank \<Rightarrow> int \<Rightarrow> string" where
  "key_of s v = pix_key (accounts s ! nat (v - 1))"

definition val_valid :: "bank \<Rightarrow> int \<Rightarrow> bool" where
  "val_valid s v = (1 \<le> v \<and> v \<le> int (account_count s) \<and> used (accounts s ! nat (v - 1))
      \<and> pix_key (accounts s ! nat (v - 1)) \<noteq> [])"

definition vals :: "bank \<Rightarrow> int set" where
  "vals s = {v. v \<noteq> 0 \<and> (\<exists>p < length (pix_table s). pix_table s ! p = v)}"

definition probe_ok :: "bank \<Rightarrow> nat \<Rightarrow> bool" where
  "probe_ok s p =
     (\<forall>d < fwd (pix_slot (key_of s (pix_table s ! p))) p.
        pix_table s ! slot_at (pix_slot (key_of s (pix_table s ! p))) d \<noteq> 0)"

definition table_inv :: "bank \<Rightarrow> bool" where
  "table_inv s =
     (length (pix_table s) = PIX_TABLE_SIZE
      \<and> account_count s \<le> MAX_ACCOUNTS
      \<and> (\<forall>v \<in> vals s. val_valid s v)
      \<and> (\<forall>v \<in> vals s. \<forall>w \<in> vals s. key_of s v = key_of s w \<longrightarrow> v = w)
      \<and> (\<forall>p < PIX_TABLE_SIZE. \<forall>q < PIX_TABLE_SIZE.
            pix_table s ! p \<noteq> 0 \<and> pix_table s ! p = pix_table s ! q \<longrightarrow> p = q)
      \<and> (\<forall>p < PIX_TABLE_SIZE. pix_table s ! p \<noteq> 0 \<longrightarrow> probe_ok s p))"

definition rehash_inv :: "bank \<Rightarrow> nat \<Rightarrow> nat \<Rightarrow> nat \<Rightarrow> bool" where
  "rehash_inv s x c m =
     (length (pix_table s) = PIX_TABLE_SIZE
      \<and> account_count s \<le> MAX_ACCOUNTS
      \<and> x < PIX_TABLE_SIZE \<and> 1 \<le> c \<and> c \<le> m \<and> m < PIX_TABLE_SIZE
      \<and> pix_table s ! slot_at x m = 0
      \<and> (\<forall>k. c \<le> k \<and> k < m \<longrightarrow> pix_table s ! slot_at x k \<noteq> 0)
      \<and> (\<forall>v \<in> vals s. val_valid s v)
      \<and> (\<forall>v \<in> vals s. \<forall>w \<in> vals s. key_of s v = key_of s w \<longrightarrow> v = w)
      \<and> (\<forall>p < PIX_TABLE_SIZE. \<forall>q < PIX_TABLE_SIZE.
            pix_table s ! p \<noteq> 0 \<and> pix_table s ! p = pix_table s ! q \<longrightarrow> p = q)
      \<and> (\<forall>p < PIX_TABLE_SIZE. pix_table s ! p \<noteq> 0 \<longrightarrow>
            (\<forall>d < fwd (pix_slot (key_of s (pix_table s ! p))) p.
               pix_table s ! slot_at (pix_slot (key_of s (pix_table s ! p))) d \<noteq> 0
               \<or> (c \<le> fwd x p \<and> fwd x p < m
                   \<and> fwd x (slot_at (pix_slot (key_of s (pix_table s ! p))) d) < c))))"

definition pix_inv :: "bank \<Rightarrow> bool" where
  "pix_inv s =
     (table_inv s \<and> length (accounts s) = MAX_ACCOUNTS
      \<and> (\<forall>i < account_count s. used (accounts s ! i))
      \<and> (\<forall>i < account_count s. pix_key (accounts s ! i) \<noteq> [] \<longrightarrow> int i + 1 \<in> vals s))"

definition set_pix_account :: "Account \<Rightarrow> string \<Rightarrow> Account" where
  "set_pix_account a pix =
     a\<lparr>pix_key := pix, txlog := txlog_push (txlog a) TX_MISC 0 ''PIX key set/updated''\<rparr>"

definition deposit_note :: "cents_t \<Rightarrow> string" where
  "deposit_note amt = snprintf TX_NOTE_LEN (''Deposited '' @ cents_str amt 64)"

definition withdraw_note :: "cents_t \<Rightarrow> string" where
  "withdraw_note amt = snprintf TX_NOTE_LEN (''Withdrew '' @ cents_str amt 64)"

definition credit_note :: "cents_t \<Rightarrow> string" where
  "credit_note amt = snprintf TX_NOTE_LEN (''Credit advance '' @ cents_str amt 64)"

definition limit_note :: "cents_t \<Rightarrow> string" where
  "limit_note amt = snprintf TX_NOTE_LEN (''Credit limit set to '' @ cents_str amt 64)"

definition note_out :: "bank \<Rightarrow> nat \<Rightarrow> cents_t \<Rightarrow> string" where
  "note_out s t amt =
     snprintf TX_NOTE_LEN (''Transferred '' @ cents_str amt 64 @ '' to '' @ username (accounts s ! t))"

definition note_in :: "bank \<Rightarrow> nat \<Rightarrow> cents_t \<Rightarrow> string" where
  "note_in s i amt =
     snprintf TX_NOTE_LEN (''Received '' @ cents_str amt 64 @ '' from '' @ username (accounts s ! i))"

definition acct_ok :: "Account \<Rightarrow> bool" where
  "acct_ok a = (0 \<le>s credit_used a \<and> credit_used a \<le>s credit_limit a \<and> ring_ok (txlog a))"

definition bank_inv :: "bank \<Rightarrow> bool" where
  "bank_inv s = (pix_inv s \<and> (\<forall>a \<in> set (accounts s). acct_ok a))"

definition fresh_account :: "string \<Rightarrow> string \<Rightarrow> string \<Rightarrow> Account" where
  "fresh_account uname pw ag =
     zero_account\<lparr>used := True,
       username := safe_strcpy [] uname MAX_NAME_LEN,
       password := safe_strcpy [] pw MAX_PASS_LEN,
       agency := safe_strcpy [] ag MAX_AGENCY_LEN,
       balance := 0, credit_limit := 100 * 100, credit_used := 0\<rparr>"

definition sample_accounts :: "Account list" where
  "sample_accounts = (replicate MAX_ACCOUNTS zero_account)
     [0 := sample_account ''user1'' ''user1pix'', 1 := sample_account ''user2'' ''user2pix'']"

definition sample_bank :: bank where
  "sample_bank = \<lparr>accounts = sample_accounts, account_count = 2,
     pix_table = (replicate PIX_TABLE_SIZE 0)[520 := 1, 1051 := 2]\<rparr>"

subsection \<open>Concrete runs\<close>

definition cluster_events :: "event list" where
  "cluster_events =
     [Login ''user1'' ''pass'' [Op_Set_Pix ''bobpix''],
      Login ''user2'' ''pass'' [Op_Set_Pix ''iara1''],
      Register ''user3'' ''pw'' ''DF'',
      Login ''user3'' ''pw'' [Op_Set_Pix ''nina2'']]"

definition advance_bank :: bank where
  "advance_bank = upd_account sample_bank 0
     (\<lambda>a. a\<lparr>credit_used := credit_used a + 5000, balance := balance a + 5000,
            txlog := txlog_push (txlog a) TX_CREDIT_ADV 5000 (credit_note 5000)\<rparr>)"

subsection \<open>Runs without overflow of a credited balance\<close>

text \<open>
  A credit of \<open>amt\<close> to account \<open>j\<close> fits when the sum of the balance and the amount is
  below \<open>2\<^sup>6\<^sup>3\<close>, so that the 64-bit addition does not wrap.
\<close>

definition credit_fits :: "bank \<Rightarrow> nat \<Rightarrow> cents_t \<Rightarrow> bool" where
  "credit_fits s j amt = (sint (balance (accounts s ! j)) + sint amt < 2 ^ 63)"

text \<open>
  The balances that a menu operation credits: the own one for a deposit and a credit advance,
  the receiver's for a transfer to another key.
\<close>

fun op_fits :: "bank \<Rightarrow> nat \<Rightarrow> menu_op \<Rightarrow> bool" where
  "op_fits s i (Op_Deposit line) =
     (case read_cents_prompt line of None \<Rightarrow> True | Some amt \<Rightarrow> credit_fits s i amt)"
| "op_fits s i (Op_Transfer pixline line) =
     (case read_cents_prompt line of
        None \<Rightarrow> True
      | Some amt \<Rightarrow>
          if readln pixline MAX_PIX_LEN = pix_key (accounts s ! i) then credit_fits s i amt
          else (case pix_find s (readln pixline MAX_PIX_LEN) of
                  None \<Rightarrow> True
                | Some t \<Rightarrow> t < 0 \<or> credit_fits s (nat t) amt))"
| "op_fits s i x = True"

fun ops_fit :: "bank \<Rightarrow> nat \<Rightarrow> menu_op list \<Rightarrow> bool" where
  "ops_fit s i [] = True"
| "ops_fit s i (x # xs) =
     (op_fits s i x \<and> (case menu_step s i x of None \<Rightarrow> True | Some (out, r) \<Rightarrow> ops_fit r i xs))"

fun event_fits :: "bank \<Rightarrow> event \<Rightarrow> bool" where
  "event_fits s (Register uline pline aline) = True"
| "event_fits s (Login uline pline xs) =
     (let idx = find_account_by_name s (readln uline MAX_NAME_LEN)
      in if 0 \<le> idx \<and> password (accounts s ! nat idx) = readln pline MAX_PASS_LEN
         then ops_fit s (nat idx) xs else True)"

text \<open>The states reached from the start by steps in which every credit fits.\<close>

inductive fit_reachable :: "bank \<Rightarrow> bool" where
  fit_init: "main_init = Some s \<Longrightarrow> fit_reachable s"
| fit_step: "fit_reachable s \<Longrightarrow> event_fits s e \<Longrightarrow> main_step s e = Some r \<Longrightarrow> fit_reachable r"

text \<open>Every live account has a non-negative balance.\<close>

definition balances_ok :: "bank \<Rightarrow> bool" where
  "balances_ok s = (\<forall>j < account_count s. 0 \<le>s balance (accounts s ! j))"

text \<open>The balance and the used credit of account \<open>j\<close> after a run of the program.\<close>

definition balance_after :: "event list \<Rightarrow> nat \<Rightarrow> int option" where
  "balance_after evs j =
     (case Option.bind main_init (\<lambda>s. main_run s evs) of
        None \<Rightarrow> None
      | Some r \<Rightarrow> Some (sint (balance (accounts r ! j))))"

definition credit_used_after :: "event list \<Rightarrow> nat \<Rightarrow> int option" where
  "credit_used_after evs j =
     (case Option.bind main_init (\<lambda>s. main_run s evs) of
        None \<Rightarrow> None
      | Some r \<Rightarrow> Some (sint (credit_used (accounts r ! j))))"

(*DEFS*)

section \<open>Transaction ring: pushes and iteration\<close>

lemma mod_add_inj:
  assumes "i < C" "j < C" "(a + i) mod C = (a + j) mod (C::nat)"
  shows "i = j"
proof -
  have aux: "x = y" if "x \<le> y" "y < C" "(a + x) mod C = (a + y) mod C" for x y :: nat
  proof -
    have "C dvd (a + y) - (a + x)"
      using that by (metis mod_eq_dvd_iff_nat add_le_cancel_left)
    then have "C dvd y - x" by simp
    moreover have "y - x < C" using that by simp
    ultimately have "y - x = 0" by (meson dvd_imp_le not_le zero_less_iff_neq_zero)
    then show ?thesis using that by simp
  qed
  show ?thesis
  proof (cases "i \<le> j")
    case True
    then show ?thesis using aux assms by blast
  next
    case False
    then show ?thesis using aux[of j i] assms by simp
  qed
qed

lemma ring_ok_push: "ring_ok log \<Longrightarrow> ring_ok (txlog_push log ty amt nt)"
  by (auto simp: ring_ok_def txlog_push_def Let_def TX_LOG_SIZE_def)

lemma ring_ok_zero: "ring_ok zero_txlog"
  by (simp add: ring_ok_def zero_txlog_def TX_LOG_SIZE_def)

lemma ring_ok_push_all: "ring_ok log \<Longrightarrow> ring_ok (push_all log rs)"
  by (induction rs arbitrary: log) (auto simp: push_all_def ring_ok_push)

lemma length_txlog_iter: "length (txlog_iter log) = count log"
  by (simp add: txlog_iter_def)

lemma push_all_snoc:
  "push_all log (rs @ [(ty, amt, nt)]) = txlog_push (push_all log rs) ty amt nt"
  by (simp add: push_all_def)

text \<open>
  One push: below capacity the new record is appended; at capacity the oldest record is
  dropped and the new one appended.
\<close>

lemma txlog_iter_push:
  assumes "ring_ok log"
  shows "txlog_iter (txlog_push log ty amt nt) =
     (if count log < TX_LOG_SIZE then txlog_iter log else tl (txlog_iter log))
       @ [stored_tx (ty, amt, nt)]"
proof (cases "count log < TX_LOG_SIZE")
  case True
  have len: "length (entries log) = TX_LOG_SIZE" and h: "head log < TX_LOG_SIZE"
    using assms by (auto simp: ring_ok_def)
  have ne: "(head log + count log) mod TX_LOG_SIZE \<noteq> (head log + i) mod TX_LOG_SIZE"
    if "i < count log" for i
    using True that mod_add_inj[of i TX_LOG_SIZE "count log" "head log"] by auto
  have pos: "0 < TX_LOG_SIZE" by (simp add: TX_LOG_SIZE_def)
  show ?thesis using True len h ne pos
    by (simp add: txlog_iter_def txlog_push_def Let_def stored_tx_def safe_strcpy_def
        TX_NOTE_LEN_def)
next
  case False
  have len: "length (entries log) = TX_LOG_SIZE" and h: "head log < TX_LOG_SIZE"
    and c: "count log = TX_LOG_SIZE"
    using assms False by (auto simp: ring_ok_def)
  have pos: "0 < TX_LOG_SIZE" by (simp add: TX_LOG_SIZE_def)
  let ?v = "stored_tx (ty, amt, nt)"
  let ?L = "txlog_push log ty amt nt"
  have L: "?L = log\<lparr>head := (head log + 1) mod TX_LOG_SIZE,
                     entries := (entries log)[head log := ?v]\<rparr>"
    using False
    by (simp add: txlog_push_def Let_def stored_tx_def safe_strcpy_def TX_NOTE_LEN_def)
  show ?thesis
  proof (rule nth_equalityI)
    show "length (txlog_iter ?L) =
      length ((if count log < TX_LOG_SIZE then txlog_iter log else tl (txlog_iter log)) @ [?v])"
      using False c pos by (simp add: L txlog_iter_def)
  next
    fix i
    assume "i < length (txlog_iter ?L)"
    then have i: "i < TX_LOG_SIZE" by (simp add: L txlog_iter_def c)
    have idx: "(Suc (head log) mod TX_LOG_SIZE + i) mod TX_LOG_SIZE
                 = Suc (head log + i) mod TX_LOG_SIZE"
      by (simp add: mod_simps)
    show "txlog_iter ?L ! i =
      ((if count log < TX_LOG_SIZE then txlog_iter log else tl (txlog_iter log)) @ [?v]) ! i"
    proof (cases "i + 1 < TX_LOG_SIZE")
      case True
      have "(head log + (i + 1)) mod TX_LOG_SIZE \<noteq> (head log + 0) mod TX_LOG_SIZE"
        using mod_add_inj[of "i + 1" TX_LOG_SIZE 0 "head log"] True pos by auto
      then have "(head log + (i + 1)) mod TX_LOG_SIZE \<noteq> head log" using h by simp
      then show ?thesis using True i c False len
        by (simp add: L txlog_iter_def idx nth_append nth_tl)
    next
      case last: False
      then have "i + 1 = TX_LOG_SIZE" using i by simp
      then have "(head log + (i + 1)) mod TX_LOG_SIZE = head log" using h by simp
      then show ?thesis using last i c False len h
        by (simp add: L txlog_iter_def idx nth_append)
    qed
  qed
qed

lemma txlog_iter_push_all:
  "txlog_iter (push_all zero_txlog rs) = map stored_tx (drop (length rs - TX_LOG_SIZE) rs)"
proof (induction rs rule: rev_induct)
  case Nil
  show ?case by (simp add: push_all_def txlog_iter_def zero_txlog_def)
next
  case (snoc r rs)
  obtain ty amt nt where r: "r = (ty, amt, nt)" by (cases r) auto
  let ?log = "push_all zero_txlog rs"
  have ok: "ring_ok ?log" by (simp add: ring_ok_push_all ring_ok_zero)
  have cnt: "count ?log = min (length rs) TX_LOG_SIZE"
    using length_txlog_iter[of ?log] snoc.IH by simp
  show ?case
  proof (cases "length rs < TX_LOG_SIZE")
    case True
    then show ?thesis using snoc.IH cnt ok
      by (simp add: r push_all_snoc txlog_iter_push)
  next
    case False
    then have "drop (Suc (length rs) - TX_LOG_SIZE) rs = tl (drop (length rs - TX_LOG_SIZE) rs)"
      by (simp add: tl_drop Suc_diff_le drop_Suc)
    moreover have "0 < TX_LOG_SIZE" by (simp add: TX_LOG_SIZE_def)
    ultimately show ?thesis using False snoc.IH cnt ok
      by (simp add: r push_all_snoc txlog_iter_push map_tl)
  qed
qed

text \<open>
  Claim C2. After any sequence \<open>rs\<close> of pushes into an empty ring (capacity
  \<open>TX_LOG_SIZE = 256\<close>), iterating the ring yields the records of the last
  \<open>min (length rs) TX_LOG_SIZE\<close> pushes, oldest first: all of them while at most 256 were
  pushed, and exactly the last 256 afterwards. \<open>txlog_push\<close> is a total function: a push
  has no failure case.
\<close>

theorem txring_iterates_last_pushes:
  "txlog_iter (push_all zero_txlog rs) = map stored_tx (drop (length rs - TX_LOG_SIZE) rs)
   \<and> length (txlog_iter (push_all zero_txlog rs)) = min (length rs) TX_LOG_SIZE
   \<and> TX_LOG_SIZE = 256"
  by (simp add: txlog_iter_push_all TX_LOG_SIZE_def)

section \<open>PIX table: probing, insertion and removal\<close>

lemma T_pos: "0 < PIX_TABLE_SIZE" by (simp add: PIX_TABLE_SIZE_def)

lemma slot_at_lt: "slot_at a d < PIX_TABLE_SIZE"
  by (simp add: slot_at_def T_pos)

lemma fwd_lt: "fwd a b < PIX_TABLE_SIZE"
  by (simp add: fwd_def T_pos)

lemma slot_at_0: "a < PIX_TABLE_SIZE \<Longrightarrow> slot_at a 0 = a"
  by (simp add: slot_at_def)

lemma next_slot_eq: "next_slot j = slot_at j 1"
  by (simp add: next_slot_def slot_at_def)

lemma slot_at_add: "slot_at (slot_at a d) e = slot_at a (d + e)"
  by (simp add: slot_at_def mod_simps add.assoc)

lemma fwd_if:
  "a < PIX_TABLE_SIZE \<Longrightarrow> b < PIX_TABLE_SIZE \<Longrightarrow>
   fwd a b = (if a \<le> b then b - a else b + PIX_TABLE_SIZE - a)"
proof (cases "a \<le> b")
  case True
  assume "a < PIX_TABLE_SIZE" "b < PIX_TABLE_SIZE"
  then have eq: "b + PIX_TABLE_SIZE - a = (b - a) + PIX_TABLE_SIZE" and lt: "b - a < PIX_TABLE_SIZE"
    using True by simp_all
  have "(b + PIX_TABLE_SIZE - a) mod PIX_TABLE_SIZE = b - a"
    unfolding eq using lt by simp
  then show ?thesis using True by (simp add: fwd_def)
next
  case False
  assume "a < PIX_TABLE_SIZE" "b < PIX_TABLE_SIZE"
  then have "b + PIX_TABLE_SIZE - a < PIX_TABLE_SIZE" using False by simp
  then show ?thesis using False by (simp add: fwd_def)
qed

lemma slot_at_if:
  "a < PIX_TABLE_SIZE \<Longrightarrow> d < PIX_TABLE_SIZE \<Longrightarrow>
   slot_at a d = (if a + d < PIX_TABLE_SIZE then a + d else a + d - PIX_TABLE_SIZE)"
  unfolding slot_at_def by (subst mod_if) (simp add: mod_if)

lemma slot_at_fwd: "a < PIX_TABLE_SIZE \<Longrightarrow> b < PIX_TABLE_SIZE \<Longrightarrow> slot_at a (fwd a b) = b"
  using fwd_lt[of a b] by (simp add: slot_at_if) (simp add: fwd_if split: if_splits)

lemma fwd_slot_at: "a < PIX_TABLE_SIZE \<Longrightarrow> d < PIX_TABLE_SIZE \<Longrightarrow> fwd a (slot_at a d) = d"
  using slot_at_lt[of a d] by (simp add: fwd_if) (simp add: slot_at_if split: if_splits)

lemma fwd_offsets:
  "x < PIX_TABLE_SIZE \<Longrightarrow> c < PIX_TABLE_SIZE \<Longrightarrow> c' < PIX_TABLE_SIZE \<Longrightarrow>
   fwd (slot_at x c) (slot_at x c') = (if c \<le> c' then c' - c else c' + PIX_TABLE_SIZE - c)"
  using slot_at_lt[of x c] slot_at_lt[of x c']
  by (simp add: fwd_if) (simp add: slot_at_if split: if_splits, arith+)

lemma slot_at_inj:
  "d < PIX_TABLE_SIZE \<Longrightarrow> d' < PIX_TABLE_SIZE \<Longrightarrow> slot_at a d = slot_at a d' \<Longrightarrow> d = d'"
  unfolding slot_at_def using mod_add_inj by blast

lemma pix_slot_lt: "pix_slot key < PIX_TABLE_SIZE"
proof -
  have "((ucast (fnv1a_hash key) :: 32 word) AND 2047) \<le> 2047"
    by (rule word_and_le1)
  then have "unat ((ucast (fnv1a_hash key) :: 32 word) AND 2047) \<le> unat (2047 :: 32 word)"
    by (simp add: word_le_nat_alt)
  then show ?thesis by (simp add: pix_slot_def PIX_TABLE_SIZE_def)
qed

lemma vals_nth: "p < length (pix_table s) \<Longrightarrow> pix_table s ! p \<noteq> 0 \<Longrightarrow> pix_table s ! p \<in> vals s"
  by (auto simp: vals_def)

subsection \<open>single steps of the loops\<close>

lemma find_miss: "pix_table s ! p = 0 \<Longrightarrow> pix_find_loop s key p = Some (- 1)"
  by (subst pix_find_loop.simps) simp

lemma find_hit:
  "val_valid s (pix_table s ! p) \<Longrightarrow> key_of s (pix_table s ! p) = key \<Longrightarrow>
   pix_find_loop s key p = Some (pix_table s ! p - 1)"
  by (subst pix_find_loop.simps) (auto simp: val_valid_def key_of_def Let_def)

lemma find_step:
  "pix_table s ! p \<noteq> 0 \<Longrightarrow> key_of s (pix_table s ! p) \<noteq> key \<Longrightarrow>
   pix_find_loop s key p = pix_find_loop s key (next_slot p)"
  by (subst pix_find_loop.simps) (auto simp: key_of_def Let_def)

lemma insert_here:
  "pix_table s ! p = 0 \<Longrightarrow>
   pix_insert_loop s key ai p = Some (s\<lparr>pix_table := (pix_table s)[p := ai + 1]\<rparr>)"
  by (subst pix_insert_loop.simps) simp

lemma insert_step:
  "pix_table s ! p \<noteq> 0 \<Longrightarrow> key_of s (pix_table s ! p) \<noteq> key \<Longrightarrow>
   pix_insert_loop s key ai p = pix_insert_loop s key ai (next_slot p)"
  by (subst pix_insert_loop.simps) (auto simp: key_of_def Let_def)

lemma remove_miss: "pix_table s ! p = 0 \<Longrightarrow> pix_remove_loop s key p = Some s"
  by (subst pix_remove_loop.simps) simp

lemma remove_hit:
  "val_valid s (pix_table s ! p) \<Longrightarrow> key_of s (pix_table s ! p) = key \<Longrightarrow>
   pix_remove_loop s key p =
     pix_rehash_loop (s\<lparr>pix_table := (pix_table s)[p := 0]\<rparr>) (next_slot p)"
  by (subst pix_remove_loop.simps) (auto simp: val_valid_def key_of_def Let_def)

lemma remove_step:
  "pix_table s ! p \<noteq> 0 \<Longrightarrow> key_of s (pix_table s ! p) \<noteq> key \<Longrightarrow>
   pix_remove_loop s key p = pix_remove_loop s key (next_slot p)"
  by (subst pix_remove_loop.simps) (auto simp: key_of_def Let_def)

subsection \<open>walks\<close>

lemma find_walk:
  "(\<forall>d' < d. pix_table s ! slot_at h d' \<noteq> 0 \<and> key_of s (pix_table s ! slot_at h d') \<noteq> key) \<Longrightarrow>
   pix_find_loop s key (slot_at h 0) = pix_find_loop s key (slot_at h d)"
proof (induction d)
  case 0
  show ?case by simp
next
  case (Suc d)
  then have "pix_find_loop s key (slot_at h 0) = pix_find_loop s key (slot_at h d)" by simp
  also have "\<dots> = pix_find_loop s key (next_slot (slot_at h d))"
    using Suc.prems by (intro find_step) auto
  finally show ?case by (simp add: next_slot_eq slot_at_add)
qed

lemma insert_walk:
  "(\<forall>d' < d. pix_table s ! slot_at h d' \<noteq> 0 \<and> key_of s (pix_table s ! slot_at h d') \<noteq> key) \<Longrightarrow>
   pix_insert_loop s key ai (slot_at h 0) = pix_insert_loop s key ai (slot_at h d)"
proof (induction d)
  case 0
  show ?case by simp
next
  case (Suc d)
  then have "pix_insert_loop s key ai (slot_at h 0) = pix_insert_loop s key ai (slot_at h d)" by simp
  also have "\<dots> = pix_insert_loop s key ai (next_slot (slot_at h d))"
    using Suc.prems by (intro insert_step) auto
  finally show ?case by (simp add: next_slot_eq slot_at_add)
qed

lemma remove_walk:
  "(\<forall>d' < d. pix_table s ! slot_at h d' \<noteq> 0 \<and> key_of s (pix_table s ! slot_at h d') \<noteq> key) \<Longrightarrow>
   pix_remove_loop s key (slot_at h 0) = pix_remove_loop s key (slot_at h d)"
proof (induction d)
  case 0
  show ?case by simp
next
  case (Suc d)
  then have "pix_remove_loop s key (slot_at h 0) = pix_remove_loop s key (slot_at h d)" by simp
  also have "\<dots> = pix_remove_loop s key (next_slot (slot_at h d))"
    using Suc.prems by (intro remove_step) auto
  finally show ?case by (simp add: next_slot_eq slot_at_add)
qed

text \<open>the first empty slot on a probe\<close>

lemma first_empty:
  assumes "pix_table s ! slot_at h D = 0"
  obtains d0 where "d0 \<le> D" "pix_table s ! slot_at h d0 = 0"
    "\<forall>d < d0. pix_table s ! slot_at h d \<noteq> 0"
proof -
  let ?P = "\<lambda>d. pix_table s ! slot_at h d = 0"
  have "?P (LEAST d. ?P d)" using assms by (rule LeastI)
  moreover have "(LEAST d. ?P d) \<le> D" using assms by (rule Least_le)
  moreover have "\<forall>d < (LEAST d. ?P d). \<not> ?P d" using not_less_Least by blast
  ultimately show ?thesis using that by blast
qed

lemma insert_mech:
  assumes "key \<noteq> []" and "pix_table s ! slot_at (pix_slot key) d0 = 0"
    and "\<forall>d < d0. pix_table s ! slot_at (pix_slot key) d \<noteq> 0
            \<and> key_of s (pix_table s ! slot_at (pix_slot key) d) \<noteq> key"
  shows "pix_insert s key ai =
     Some (s\<lparr>pix_table := (pix_table s)[slot_at (pix_slot key) d0 := ai + 1]\<rparr>)"
proof -
  have "pix_insert s key ai = pix_insert_loop s key ai (slot_at (pix_slot key) 0)"
    using assms(1) by (simp add: pix_insert_def slot_at_0 pix_slot_lt)
  also have "\<dots> = pix_insert_loop s key ai (slot_at (pix_slot key) d0)"
    using assms(3) by (rule insert_walk)
  also have "\<dots> = Some (s\<lparr>pix_table := (pix_table s)[slot_at (pix_slot key) d0 := ai + 1]\<rparr>)"
    using assms(2) by (rule insert_here)
  finally show ?thesis .
qed

subsection \<open>lookups in a table that satisfies the invariant\<close>

lemma key_of_frame [simp]: "key_of (s\<lparr>pix_table := tb\<rparr>) v = key_of s v"
  by (simp add: key_of_def)

lemma val_valid_frame [simp]: "val_valid (s\<lparr>pix_table := tb\<rparr>) v = val_valid s v"
  by (simp add: val_valid_def)

lemma table_inv_has_empty:
  assumes "table_inv s"
  shows "\<exists>e < PIX_TABLE_SIZE. pix_table s ! e = 0"
proof (rule ccontr)
  assume "\<not> ?thesis"
  then have full: "\<forall>e < PIX_TABLE_SIZE. pix_table s ! e \<noteq> 0" by auto
  have len: "length (pix_table s) = PIX_TABLE_SIZE" using assms by (simp add: table_inv_def)
  let ?f = "\<lambda>p. pix_table s ! p"
  have inj: "inj_on ?f {..<PIX_TABLE_SIZE}"
    using assms full by (auto simp: inj_on_def table_inv_def)
  have "?f ` {..<PIX_TABLE_SIZE} \<subseteq> {1 .. int (account_count s)}"
  proof
    fix v assume "v \<in> ?f ` {..<PIX_TABLE_SIZE}"
    then obtain p where "p < PIX_TABLE_SIZE" "v = pix_table s ! p" by auto
    then have "v \<in> vals s" using full len by (simp add: vals_nth)
    then have "val_valid s v" using assms by (simp add: table_inv_def)
    then show "v \<in> {1 .. int (account_count s)}" by (simp add: val_valid_def)
  qed
  then have "card (?f ` {..<PIX_TABLE_SIZE}) \<le> card {1 .. int (account_count s)}"
    by (intro card_mono) auto
  then have "PIX_TABLE_SIZE \<le> account_count s"
    using inj by (simp add: card_image)
  moreover have "account_count s \<le> MAX_ACCOUNTS" using assms by (simp add: table_inv_def)
  ultimately show False by (simp add: PIX_TABLE_SIZE_def MAX_ACCOUNTS_def)
qed

lemma find_present:
  assumes inv: "table_inv s" and p: "p < PIX_TABLE_SIZE" and occ: "pix_table s ! p \<noteq> 0"
    and key: "key_of s (pix_table s ! p) = key"
  shows "pix_find s key = Some (pix_table s ! p - 1)"
proof -
  let ?h = "pix_slot key"
  let ?D = "fwd ?h p"
  have len: "length (pix_table s) = PIX_TABLE_SIZE" using inv by (simp add: table_inv_def)
  have v: "pix_table s ! p \<in> vals s" using p occ len by (simp add: vals_nth)
  then have valid: "val_valid s (pix_table s ! p)" using inv by (simp add: table_inv_def)
  then have ne: "key \<noteq> []" using key by (auto simp: val_valid_def key_of_def)
  have ok: "probe_ok s p" using inv p occ by (simp add: table_inv_def)
  have before: "pix_table s ! slot_at ?h d \<noteq> 0 \<and> key_of s (pix_table s ! slot_at ?h d) \<noteq> key"
    if d: "d < ?D" for d
  proof
    show occ_d: "pix_table s ! slot_at ?h d \<noteq> 0"
      using ok d key by (simp add: probe_ok_def)
    show "key_of s (pix_table s ! slot_at ?h d) \<noteq> key"
    proof
      assume same: "key_of s (pix_table s ! slot_at ?h d) = key"
      have "pix_table s ! slot_at ?h d \<in> vals s"
        using occ_d len by (simp add: vals_nth slot_at_lt)
      then have "pix_table s ! slot_at ?h d = pix_table s ! p"
        using inv v same key by (simp add: table_inv_def)
      then have "slot_at ?h d = p"
        using inv occ_d p slot_at_lt[of ?h d] by (simp add: table_inv_def)
      then have "slot_at ?h d = slot_at ?h ?D" by (simp add: slot_at_fwd pix_slot_lt p)
      then have "d = ?D" using d fwd_lt[of ?h p] by (intro slot_at_inj[of d _ ?h]) auto
      then show False using d by simp
    qed
  qed
  have "pix_find s key = pix_find_loop s key (slot_at ?h 0)"
    using ne by (simp add: pix_find_def slot_at_0 pix_slot_lt)
  also have "\<dots> = pix_find_loop s key (slot_at ?h ?D)"
    using before by (intro find_walk) blast
  also have "\<dots> = pix_find_loop s key p" by (simp add: slot_at_fwd pix_slot_lt p)
  also have "\<dots> = Some (pix_table s ! p - 1)" using valid key by (rule find_hit)
  finally show ?thesis .
qed

lemma find_absent:
  assumes inv: "table_inv s" and none: "\<forall>v \<in> vals s. key_of s v \<noteq> key"
  shows "pix_find s key = Some (- 1)"
proof (cases "key = []")
  case True
  then show ?thesis by (simp add: pix_find_def)
next
  case False
  let ?h = "pix_slot key"
  have len: "length (pix_table s) = PIX_TABLE_SIZE" using inv by (simp add: table_inv_def)
  obtain e where e: "e < PIX_TABLE_SIZE" "pix_table s ! e = 0"
    using table_inv_has_empty[OF inv] by blast
  then have "pix_table s ! slot_at ?h (fwd ?h e) = 0" by (simp add: slot_at_fwd pix_slot_lt)
  then obtain d0 where d0: "pix_table s ! slot_at ?h d0 = 0"
    "\<forall>d < d0. pix_table s ! slot_at ?h d \<noteq> 0"
    by (rule first_empty)
  have before: "\<forall>d < d0. pix_table s ! slot_at ?h d \<noteq> 0
      \<and> key_of s (pix_table s ! slot_at ?h d) \<noteq> key"
    using d0(2) none len by (auto simp: vals_nth slot_at_lt)
  have "pix_find s key = pix_find_loop s key (slot_at ?h 0)"
    using False by (simp add: pix_find_def slot_at_0 pix_slot_lt)
  also have "\<dots> = pix_find_loop s key (slot_at ?h d0)" using before by (rule find_walk)
  also have "\<dots> = Some (- 1)" using d0(1) by (rule find_miss)
  finally show ?thesis .
qed

subsection \<open>the rehash loop\<close>

lemma fwd_on_path:
  assumes "h < PIX_TABLE_SIZE" "p < PIX_TABLE_SIZE" "d < fwd h p"
  shows "fwd (slot_at h d) p = fwd h p - d"
proof -
  have "fwd (slot_at h d) (slot_at h (fwd h p)) = fwd h p - d"
    using assms fwd_lt[of h p] by (subst fwd_offsets) auto
  then show ?thesis using assms by (simp add: slot_at_fwd)
qed

text \<open>
  A probe path that holds no empty slot and ends at \<open>p\<close> cannot pass through a slot \<open>j\<close>
  from which an empty slot comes before \<open>p\<close>.
\<close>

lemma path_avoids:
  assumes x: "x < PIX_TABLE_SIZE" and h: "h < PIX_TABLE_SIZE" and p: "p < PIX_TABLE_SIZE"
    and c: "c < m" and m: "m < PIX_TABLE_SIZE"
    and outside: "fwd x p < c \<or> m < fwd x p"
    and d: "d < fwd h p" and on: "slot_at h d = slot_at x c"
    and full: "\<forall>d' < fwd h p. d' \<noteq> d \<longrightarrow> tb ! slot_at h d' \<noteq> (0::int)"
    and E: "tb ! slot_at x m = 0"
  shows False
proof -
  have cT: "c < PIX_TABLE_SIZE" using c m by simp
  have "fwd (slot_at x c) p = fwd (slot_at x c) (slot_at x (fwd x p))"
    using x p by (simp add: slot_at_fwd)
  also have "\<dots> = (if c \<le> fwd x p then fwd x p - c else fwd x p + PIX_TABLE_SIZE - c)"
    using x cT fwd_lt[of x p] by (rule fwd_offsets)
  finally have jp: "fwd (slot_at x c) p = (if c \<le> fwd x p then fwd x p - c else fwd x p + PIX_TABLE_SIZE - c)" .
  have "fwd (slot_at h d) p = fwd h p - d" using h p d by (rule fwd_on_path)
  then have tot: "fwd h p = d + fwd (slot_at x c) p" using d on by simp
  have far: "m - c < fwd (slot_at x c) p"
    using jp outside c m by (auto split: if_splits)
  let ?d' = "d + (m - c)"
  have "?d' < fwd h p" using tot far by simp
  moreover have "?d' \<noteq> d" using c by simp
  ultimately have "tb ! slot_at h ?d' \<noteq> 0" using full by blast
  moreover have "slot_at h ?d' = slot_at x m"
  proof -
    have "slot_at h ?d' = slot_at (slot_at h d) (m - c)" by (simp add: slot_at_add)
    also have "\<dots> = slot_at x (c + (m - c))" unfolding on by (simp add: slot_at_add)
    finally show ?thesis using c by simp
  qed
  ultimately show False using E by simp
qed

lemma rehash_step:
  assumes inv: "rehash_inv s x c m" and lt: "c < m"
  shows "\<exists>r. pix_rehash_loop s (slot_at x c) = pix_rehash_loop r (slot_at x (c + 1))
            \<and> rehash_inv r x (c + 1) m \<and> accounts r = accounts s
            \<and> account_count r = account_count s \<and> vals r = vals s"
proof -
  let ?T = "PIX_TABLE_SIZE"
  let ?tb = "pix_table s"
  let ?j = "slot_at x c"
  let ?v = "?tb ! ?j"
  let ?key = "key_of s ?v"
  let ?h = "pix_slot ?key"
  have len: "length ?tb = ?T" and x: "x < ?T" and c1: "1 \<le> c" and m: "m < ?T"
    and E: "?tb ! slot_at x m = 0"
    and run: "\<forall>k. c \<le> k \<and> k < m \<longrightarrow> ?tb ! slot_at x k \<noteq> 0"
    and valid: "\<forall>v \<in> vals s. val_valid s v"
    and keyinj: "\<forall>v \<in> vals s. \<forall>w \<in> vals s. key_of s v = key_of s w \<longrightarrow> v = w"
    and slotinj: "\<forall>p < ?T. \<forall>q < ?T. ?tb ! p \<noteq> 0 \<and> ?tb ! p = ?tb ! q \<longrightarrow> p = q"
    and paths: "\<forall>p < ?T. ?tb ! p \<noteq> 0 \<longrightarrow>
            (\<forall>d < fwd (pix_slot (key_of s (?tb ! p))) p.
               ?tb ! slot_at (pix_slot (key_of s (?tb ! p))) d \<noteq> 0
               \<or> (c \<le> fwd x p \<and> fwd x p < m
                   \<and> fwd x (slot_at (pix_slot (key_of s (?tb ! p))) d) < c))"
    and cnt: "account_count s \<le> MAX_ACCOUNTS"
    using inv unfolding rehash_inv_def by blast+
  have cT: "c < ?T" using lt m by simp
  have jT: "?j < ?T" by (rule slot_at_lt)
  have hT: "?h < ?T" by (rule pix_slot_lt)
  have v0: "?v \<noteq> 0" using run lt by simp
  have vin: "?v \<in> vals s" using v0 jT len by (simp add: vals_nth)
  have vvalid: "val_valid s ?v" using valid vin by blast
  have keyne: "?key \<noteq> []" using vvalid by (simp add: val_valid_def key_of_def)
  have fj: "fwd x ?j = c" using x cT by (rule fwd_slot_at)
  define tb1 where "tb1 = ?tb[?j := 0]"
  define s1 where "s1 = s\<lparr>pix_table := tb1\<rparr>"
  have tb1_nth: "tb1 ! p = (if p = ?j then 0 else ?tb ! p)" if "p < ?T" for p
    using that len by (simp add: tb1_def nth_list_update)
  have jpath: "?tb ! slot_at ?h d \<noteq> 0 \<or> fwd x (slot_at ?h d) < c" if "d < fwd ?h ?j" for d
    using paths jT v0 that by blast
  have "pix_table s1 ! slot_at ?h (fwd ?h ?j) = 0"
    using jT hT by (simp add: s1_def slot_at_fwd tb1_nth)
  then obtain d0 where d0le: "d0 \<le> fwd ?h ?j" and d0e: "pix_table s1 ! slot_at ?h d0 = 0"
    and d0b: "\<forall>d < d0. pix_table s1 ! slot_at ?h d \<noteq> 0"
    by (rule first_empty)
  define e where "e = slot_at ?h d0"
  have eT: "e < ?T" unfolding e_def by (rule slot_at_lt)
  have d0T: "d0 < ?T" using d0le fwd_lt[of ?h ?j] by simp
  have tb1e: "tb1 ! e = 0" using d0e by (simp add: s1_def e_def)
  have e_cases: "e = ?j \<or> (e \<noteq> ?j \<and> ?tb ! e = 0 \<and> fwd x e < c)"
  proof (cases "e = ?j")
    case True
    then show ?thesis by simp
  next
    case False
    then have e0: "?tb ! e = 0" using tb1e eT by (simp add: tb1_nth)
    have "d0 \<noteq> fwd ?h ?j" using False jT hT by (auto simp: e_def slot_at_fwd)
    then have "d0 < fwd ?h ?j" using d0le by simp
    then have "fwd x e < c" using jpath[of d0] e0 by (simp add: e_def)
    then show ?thesis using False e0 by simp
  qed
  have e_le: "fwd x e \<le> c" using e_cases fj by auto
  have nonmatch: "\<forall>d < d0. pix_table s1 ! slot_at ?h d \<noteq> 0
       \<and> key_of s1 (pix_table s1 ! slot_at ?h d) \<noteq> ?key"
  proof (intro allI impI conjI)
    fix d assume d: "d < d0"
    let ?q = "slot_at ?h d"
    show occ: "pix_table s1 ! ?q \<noteq> 0" using d0b d by blast
    have qT: "?q < ?T" by (rule slot_at_lt)
    have qj: "?q \<noteq> ?j" using occ qT by (auto simp: s1_def tb1_nth)
    then have same: "pix_table s1 ! ?q = ?tb ! ?q" using qT by (simp add: s1_def tb1_nth)
    show "key_of s1 (pix_table s1 ! ?q) \<noteq> ?key"
    proof
      assume "key_of s1 (pix_table s1 ! ?q) = ?key"
      then have k: "key_of s (?tb ! ?q) = key_of s ?v" unfolding same by (simp add: s1_def)
      have "?tb ! ?q \<in> vals s" using occ same qT len by (simp add: vals_nth)
      then have "?tb ! ?q = ?v" using keyinj vin k by blast
      then have "?q = ?j" using slotinj qT jT occ same by metis
      then show False using qj by simp
    qed
  qed
  define s2 where "s2 = s1\<lparr>pix_table := (pix_table s1)[e := ?v]\<rparr>"
  have ins: "pix_insert s1 ?key (?v - 1) = Some s2"
    using insert_mech[OF keyne, of s1 d0 "?v - 1"] d0e nonmatch
    by (simp add: s2_def e_def)
  have tb2_nth: "pix_table s2 ! p = (if p = e then ?v else if p = ?j then 0 else ?tb ! p)"
    if "p < ?T" for p
    using that len by (simp add: s2_def s1_def tb1_def nth_list_update)
  have len2: "length (pix_table s2) = ?T" using len by (simp add: s2_def s1_def tb1_def)
  have acc2: "accounts s2 = accounts s" "account_count s2 = account_count s"
    by (simp_all add: s2_def s1_def)
  have key2: "key_of s2 w = key_of s w" for w by (simp add: s2_def s1_def)
  have valid2: "val_valid s2 w = val_valid s w" for w by (simp add: s2_def s1_def)
  have loop: "pix_rehash_loop s ?j = pix_rehash_loop s2 (slot_at x (c + 1))"
  proof -
    have cond: "0 \<le> ?v - 1 \<and> ?v - 1 < int (account_count s) \<and> used (accounts s ! nat (?v - 1))
        \<and> pix_key (accounts s ! nat (?v - 1)) \<noteq> []"
      using vvalid by (auto simp: val_valid_def)
    have "pix_rehash_loop s ?j =
        Option.bind (pix_insert s1 ?key (?v - 1)) (\<lambda>r. pix_rehash_loop r (next_slot ?j))"
      using v0 cond
      by (subst pix_rehash_loop.simps) (simp add: Let_def s1_def tb1_def key_of_def)
    then show ?thesis by (simp add: ins next_slot_eq slot_at_add)
  qed
  have vals2: "vals s2 = vals s"
  proof (intro set_eqI iffI)
    fix w assume "w \<in> vals s2"
    then obtain p where p: "p < ?T" "pix_table s2 ! p = w" "w \<noteq> 0"
      using len2 by (auto simp: vals_def)
    show "w \<in> vals s"
    proof (cases "p = e")
      case True
      then show ?thesis using p vin by (simp add: tb2_nth)
    next
      case False
      then have "?tb ! p = w" using p by (simp add: tb2_nth split: if_splits)
      then show ?thesis using p len by (auto simp: vals_def)
    qed
  next
    fix w assume "w \<in> vals s"
    then obtain p where p: "p < ?T" "?tb ! p = w" "w \<noteq> 0"
      using len by (auto simp: vals_def)
    show "w \<in> vals s2"
    proof (cases "p = ?j")
      case True
      then have "pix_table s2 ! e = w" using p eT by (simp add: tb2_nth)
      then show ?thesis using p eT len2 by (auto simp: vals_def)
    next
      case False
      have "p \<noteq> e" using e_cases p False by auto
      then have "pix_table s2 ! p = w" using p False by (simp add: tb2_nth)
      then show ?thesis using p len2 by (auto simp: vals_def)
    qed
  qed
  have E2: "pix_table s2 ! slot_at x m = 0"
  proof -
    have fm: "fwd x (slot_at x m) = m" using x m by (rule fwd_slot_at)
    have "slot_at x m \<noteq> e" using e_le fm lt by auto
    moreover have "slot_at x m \<noteq> ?j" using fj fm lt by auto
    ultimately show ?thesis using E by (simp add: tb2_nth slot_at_lt)
  qed
  have run2: "\<forall>k. c + 1 \<le> k \<and> k < m \<longrightarrow> pix_table s2 ! slot_at x k \<noteq> 0"
  proof (intro allI impI)
    fix k assume k: "c + 1 \<le> k \<and> k < m"
    then have fk: "fwd x (slot_at x k) = k" using x m by (intro fwd_slot_at) auto
    have "slot_at x k \<noteq> ?j" using fj fk k by auto
    moreover have "?tb ! slot_at x k \<noteq> 0" using run k by simp
    ultimately show "pix_table s2 ! slot_at x k \<noteq> 0"
      using v0 by (simp add: tb2_nth slot_at_lt)
  qed
  have slotinj2: "\<forall>p < ?T. \<forall>q < ?T.
      pix_table s2 ! p \<noteq> 0 \<and> pix_table s2 ! p = pix_table s2 ! q \<longrightarrow> p = q"
  proof (intro allI impI)
    fix p q assume p: "p < ?T" and q: "q < ?T"
      and pq: "pix_table s2 ! p \<noteq> 0 \<and> pix_table s2 ! p = pix_table s2 ! q"
    have only: "r = ?j" if "r < ?T" "?tb ! r = ?v" for r
      using slotinj that jT v0 by metis
    show "p = q"
    proof (cases "p = e")
      case True
      then have "pix_table s2 ! q = ?v" using pq p by (simp add: tb2_nth)
      then show ?thesis using True q only[of q] v0 by (auto simp: tb2_nth split: if_splits)
    next
      case pe: False
      then have p': "p \<noteq> ?j" "pix_table s2 ! p = ?tb ! p"
        using pq p by (auto simp: tb2_nth split: if_splits)
      show ?thesis
      proof (cases "q = e")
        case True
        then have "?tb ! p = ?v" using pq q p' by (simp add: tb2_nth)
        then show ?thesis using only[of p] p p' by simp
      next
        case False
        then have "q \<noteq> ?j" "pix_table s2 ! q = ?tb ! q"
          using pq q by (auto simp: tb2_nth split: if_splits)
        then show ?thesis using slotinj p q pq p' by metis
      qed
    qed
  qed
  have paths2: "\<forall>p < ?T. pix_table s2 ! p \<noteq> 0 \<longrightarrow>
            (\<forall>d < fwd (pix_slot (key_of s2 (pix_table s2 ! p))) p.
               pix_table s2 ! slot_at (pix_slot (key_of s2 (pix_table s2 ! p))) d \<noteq> 0
               \<or> (c + 1 \<le> fwd x p \<and> fwd x p < m
                   \<and> fwd x (slot_at (pix_slot (key_of s2 (pix_table s2 ! p))) d) < c + 1))"
  proof (intro allI impI)
    fix p d
    assume p: "p < ?T" and occ: "pix_table s2 ! p \<noteq> 0"
      and d: "d < fwd (pix_slot (key_of s2 (pix_table s2 ! p))) p"
    let ?hp = "pix_slot (key_of s2 (pix_table s2 ! p))"
    let ?q = "slot_at ?hp d"
    have qT: "?q < ?T" by (rule slot_at_lt)
    show "pix_table s2 ! ?q \<noteq> 0 \<or> (c + 1 \<le> fwd x p \<and> fwd x p < m \<and> fwd x ?q < c + 1)"
    proof (cases "p = e")
      case True
      then have hp: "?hp = ?h" using p by (simp add: tb2_nth key2)
      have "fwd ?h e = d0" unfolding e_def using hT d0T by (rule fwd_slot_at)
      then have dd: "d < d0" using d True hp by simp
      then have "pix_table s1 ! slot_at ?h d \<noteq> 0" using d0b by blast
      moreover have "slot_at ?h d \<noteq> e"
        using dd d0T slot_at_inj[of d d0 ?h] by (auto simp: e_def)
      ultimately have "pix_table s2 ! slot_at ?h d \<noteq> 0"
        by (simp add: s2_def)
      then show ?thesis using hp by simp
    next
      case pe: False
      then have pj: "p \<noteq> ?j" and same: "pix_table s2 ! p = ?tb ! p"
        using occ p by (auto simp: tb2_nth split: if_splits)
      have occ0: "?tb ! p \<noteq> 0" using occ same by simp
      have hp: "?hp = pix_slot (key_of s (?tb ! p))" by (simp add: same key2)
      have fp: "fwd x p \<noteq> c"
      proof
        assume "fwd x p = c"
        then have "slot_at x (fwd x p) = ?j" by simp
        then show False using pj x p by (simp add: slot_at_fwd)
      qed
      have old: "?tb ! ?q \<noteq> 0 \<or> (c \<le> fwd x p \<and> fwd x p < m \<and> fwd x ?q < c)"
        using d unfolding hp using paths p occ0 by blast
      show ?thesis
      proof (cases "c \<le> fwd x p \<and> fwd x p < m")
        case True
        then have rng: "c + 1 \<le> fwd x p \<and> fwd x p < m" using fp by simp
        show ?thesis
        proof (cases "?q = ?j")
          case True
          then have "fwd x ?q < c + 1" using fj by simp
          then show ?thesis using rng by simp
        next
          case False
          show ?thesis
          proof (cases "?tb ! ?q = 0")
            case True
            then have "fwd x ?q < c" using old by simp
            then show ?thesis using rng by simp
          next
            case nz: False
            then have "pix_table s2 ! ?q \<noteq> 0" using False qT v0 by (simp add: tb2_nth)
            then show ?thesis by simp
          qed
        qed
      next
        case out: False
        then have full: "\<forall>d' < fwd ?hp p. ?tb ! slot_at ?hp d' \<noteq> 0"
          unfolding hp using paths p occ0 by blast
        have pE: "p \<noteq> slot_at x m" using occ0 E by auto
        have "fwd x p \<noteq> m"
        proof
          assume "fwd x p = m"
          then have "slot_at x (fwd x p) = slot_at x m" by simp
          then show False using pE x p by (simp add: slot_at_fwd)
        qed
        then have outside: "fwd x p < c \<or> m < fwd x p" using out by auto
        have qj: "?q \<noteq> ?j"
        proof
          assume on: "?q = ?j"
          show False
            using path_avoids[OF x pix_slot_lt p lt m outside d on _ E] full by blast
        qed
        have "?tb ! ?q \<noteq> 0" using full d by blast
        then have "pix_table s2 ! ?q \<noteq> 0" using qj qT v0 by (simp add: tb2_nth)
        then show ?thesis by simp
      qed
    qed
  qed
  have "rehash_inv s2 x (c + 1) m"
    unfolding rehash_inv_def
    using len2 cnt x lt m E2 run2 valid keyinj slotinj2 paths2
    by (simp add: acc2 vals2 key2 valid2)
  then show ?thesis using loop acc2 vals2 by blast
qed

lemma rehash_done:
  assumes "rehash_inv s x m m"
  shows "pix_rehash_loop s (slot_at x m) = Some s \<and> table_inv s"
proof
  have "pix_table s ! slot_at x m = 0" using assms by (simp add: rehash_inv_def)
  then show "pix_rehash_loop s (slot_at x m) = Some s"
    by (subst pix_rehash_loop.simps) simp
  have "\<forall>p < PIX_TABLE_SIZE. pix_table s ! p \<noteq> 0 \<longrightarrow> probe_ok s p"
    using assms unfolding rehash_inv_def probe_ok_def by (meson not_le)
  then show "table_inv s"
    using assms unfolding rehash_inv_def table_inv_def by blast
qed

lemma rehash_correct:
  assumes "rehash_inv s x c m"
  shows "\<exists>r. pix_rehash_loop s (slot_at x c) = Some r \<and> table_inv r
            \<and> accounts r = accounts s \<and> account_count r = account_count s \<and> vals r = vals s"
  using assms
proof (induction "m - c" arbitrary: s c)
  case 0
  then have "c = m" by (simp add: rehash_inv_def)
  then show ?case using rehash_done[of s x m] 0 by auto
next
  case (Suc n)
  then have lt: "c < m" by simp
  obtain r where r: "pix_rehash_loop s (slot_at x c) = pix_rehash_loop r (slot_at x (c + 1))"
    "rehash_inv r x (c + 1) m" "accounts r = accounts s"
    "account_count r = account_count s" "vals r = vals s"
    using rehash_step[OF Suc.prems lt] by blast
  have "n = m - (c + 1)" using Suc.hyps(2) by simp
  from Suc.hyps(1)[OF this r(2)] r show ?case by auto
qed

text \<open>the slots that a probe for a stored key passes before it reaches the key\<close>

lemma before_slot:
  assumes inv: "table_inv s" and p: "p < PIX_TABLE_SIZE" and occ: "pix_table s ! p \<noteq> 0"
    and key: "key_of s (pix_table s ! p) = key" and d: "d < fwd (pix_slot key) p"
  shows "pix_table s ! slot_at (pix_slot key) d \<noteq> 0
     \<and> key_of s (pix_table s ! slot_at (pix_slot key) d) \<noteq> key"
proof
  let ?h = "pix_slot key"
  have len: "length (pix_table s) = PIX_TABLE_SIZE" using inv by (simp add: table_inv_def)
  have v: "pix_table s ! p \<in> vals s" using p occ len by (simp add: vals_nth)
  have ok: "probe_ok s p" using inv p occ by (simp add: table_inv_def)
  show occ_d: "pix_table s ! slot_at ?h d \<noteq> 0"
    using ok d key by (simp add: probe_ok_def)
  show "key_of s (pix_table s ! slot_at ?h d) \<noteq> key"
  proof
    assume same: "key_of s (pix_table s ! slot_at ?h d) = key"
    have "pix_table s ! slot_at ?h d \<in> vals s"
      using occ_d len by (simp add: vals_nth slot_at_lt)
    then have "pix_table s ! slot_at ?h d = pix_table s ! p"
      using inv v same key by (simp add: table_inv_def)
    then have "slot_at ?h d = p"
      using inv occ_d p slot_at_lt[of ?h d] by (simp add: table_inv_def)
    then have "slot_at ?h d = slot_at ?h (fwd ?h p)" by (simp add: slot_at_fwd pix_slot_lt p)
    then have "d = fwd ?h p" using d fwd_lt[of ?h p] by (intro slot_at_inj[of d _ ?h]) auto
    then show False using d by simp
  qed
qed

lemma remove_present:
  assumes inv: "table_inv s" and x: "x < PIX_TABLE_SIZE" and occ: "pix_table s ! x \<noteq> 0"
    and key: "key_of s (pix_table s ! x) = key"
  shows "\<exists>r. pix_remove s key = Some r \<and> table_inv r \<and> accounts r = accounts s
            \<and> account_count r = account_count s \<and> vals r = vals s - {pix_table s ! x}
            \<and> pix_remove s key =
                pix_rehash_loop (s\<lparr>pix_table := (pix_table s)[x := 0]\<rparr>) (next_slot x)"
proof -
  let ?T = "PIX_TABLE_SIZE"
  let ?tb = "pix_table s"
  let ?h = "pix_slot key"
  let ?v = "?tb ! x"
  have len: "length ?tb = ?T" and cnt: "account_count s \<le> MAX_ACCOUNTS"
    and valid: "\<forall>v \<in> vals s. val_valid s v"
    and keyinj: "\<forall>v \<in> vals s. \<forall>w \<in> vals s. key_of s v = key_of s w \<longrightarrow> v = w"
    and slotinj: "\<forall>p < ?T. \<forall>q < ?T. ?tb ! p \<noteq> 0 \<and> ?tb ! p = ?tb ! q \<longrightarrow> p = q"
    and probes: "\<forall>p < ?T. ?tb ! p \<noteq> 0 \<longrightarrow> probe_ok s p"
    using inv unfolding table_inv_def by blast+
  have vin: "?v \<in> vals s" using x occ len by (simp add: vals_nth)
  have vvalid: "val_valid s ?v" using valid vin by blast
  have ne: "key \<noteq> []" using vvalid key by (auto simp: val_valid_def key_of_def)
  define s' where "s' = s\<lparr>pix_table := ?tb[x := 0]\<rparr>"
  have tb'_nth: "pix_table s' ! p = (if p = x then 0 else ?tb ! p)" if "p < ?T" for p
    using that len by (simp add: s'_def nth_list_update)
  have len': "length (pix_table s') = ?T" using len by (simp add: s'_def)
  have "pix_remove s key = pix_remove_loop s key (slot_at ?h 0)"
    using ne by (simp add: pix_remove_def slot_at_0 pix_slot_lt)
  also have "\<dots> = pix_remove_loop s key (slot_at ?h (fwd ?h x))"
    using before_slot[OF inv x occ key] by (intro remove_walk) blast
  also have "\<dots> = pix_remove_loop s key x" by (simp add: slot_at_fwd pix_slot_lt x)
  also have "\<dots> = pix_rehash_loop s' (next_slot x)"
    using vvalid key by (simp add: remove_hit s'_def)
  finally have rem: "pix_remove s key = pix_rehash_loop s' (slot_at x 1)"
    by (simp add: next_slot_eq)
  have vals': "vals s' = vals s - {?v}"
  proof (intro set_eqI iffI)
    fix w assume "w \<in> vals s'"
    then obtain p where p: "p < ?T" "pix_table s' ! p = w" "w \<noteq> 0"
      using len' by (auto simp: vals_def)
    then have px: "p \<noteq> x" and w: "?tb ! p = w" by (auto simp: tb'_nth split: if_splits)
    have "w \<noteq> ?v" using slotinj p(1) x px w p(3) by metis
    then show "w \<in> vals s - {?v}" using p w len by (auto simp: vals_def)
  next
    fix w assume "w \<in> vals s - {?v}"
    then obtain p where p: "p < ?T" "?tb ! p = w" "w \<noteq> 0" "w \<noteq> ?v"
      using len by (auto simp: vals_def)
    then have "p \<noteq> x" by auto
    then have "pix_table s' ! p = w" using p by (simp add: tb'_nth)
    then show "w \<in> vals s'" using p len' by (auto simp: vals_def)
  qed
  obtain e0 where e0: "e0 < ?T" "?tb ! e0 = 0" using table_inv_has_empty[OF inv] by blast
  then have e0x: "e0 \<noteq> x" using occ by auto
  have fe0: "fwd x e0 \<noteq> 0"
  proof
    assume "fwd x e0 = 0"
    then have "slot_at x (fwd x e0) = slot_at x 0" by simp
    then show False using e0x x e0 by (simp add: slot_at_fwd slot_at_0)
  qed
  have "pix_table s ! slot_at (slot_at x 1) (fwd x e0 - 1) = 0"
    using fe0 e0 x by (simp add: slot_at_add slot_at_fwd)
  then obtain d0 where d0: "d0 \<le> fwd x e0 - 1" "?tb ! slot_at (slot_at x 1) d0 = 0"
    "\<forall>d < d0. ?tb ! slot_at (slot_at x 1) d \<noteq> 0"
    by (rule first_empty)
  define m where "m = d0 + 1"
  have m1: "1 \<le> m" and mT: "m < ?T" using d0(1) fwd_lt[of x e0] fe0 by (auto simp: m_def)
  have Em: "?tb ! slot_at x m = 0" using d0(2) by (simp add: slot_at_add m_def)
  have runm: "?tb ! slot_at x k \<noteq> 0" if "1 \<le> k" "k < m" for k
  proof -
    have "k - 1 < d0" using that by (simp add: m_def)
    then have "?tb ! slot_at (slot_at x 1) (k - 1) \<noteq> 0" using d0(3) by blast
    then show ?thesis using that by (simp add: slot_at_add)
  qed
  have not_x: "slot_at x k \<noteq> x" if "1 \<le> k" "k < ?T" for k
  proof
    assume "slot_at x k = x"
    then have "slot_at x k = slot_at x 0" using x by (simp add: slot_at_0)
    then have "k = 0" using that by (intro slot_at_inj[of k 0 x]) (auto simp: T_pos)
    then show False using that by simp
  qed
  have paths': "\<forall>p < ?T. pix_table s' ! p \<noteq> 0 \<longrightarrow>
            (\<forall>d < fwd (pix_slot (key_of s' (pix_table s' ! p))) p.
               pix_table s' ! slot_at (pix_slot (key_of s' (pix_table s' ! p))) d \<noteq> 0
               \<or> (1 \<le> fwd x p \<and> fwd x p < m
                   \<and> fwd x (slot_at (pix_slot (key_of s' (pix_table s' ! p))) d) < 1))"
  proof (intro allI impI)
    fix p d
    assume p: "p < ?T" and occp: "pix_table s' ! p \<noteq> 0"
      and d: "d < fwd (pix_slot (key_of s' (pix_table s' ! p))) p"
    let ?hp = "pix_slot (key_of s' (pix_table s' ! p))"
    let ?q = "slot_at ?hp d"
    have px: "p \<noteq> x" and same: "pix_table s' ! p = ?tb ! p"
      using occp p by (auto simp: tb'_nth split: if_splits)
    have occ0: "?tb ! p \<noteq> 0" using occp same by simp
    have hp: "?hp = pix_slot (key_of s (?tb ! p))" unfolding same by (simp add: s'_def)
    have full: "\<forall>d' < fwd ?hp p. ?tb ! slot_at ?hp d' \<noteq> 0"
      unfolding hp using probes p occ0 by (simp add: probe_ok_def)
    have qT: "?q < ?T" by (rule slot_at_lt)
    show "pix_table s' ! ?q \<noteq> 0 \<or> (1 \<le> fwd x p \<and> fwd x p < m \<and> fwd x ?q < 1)"
    proof (cases "?q = x")
      case False
      then have "pix_table s' ! ?q \<noteq> 0" using full d qT by (simp add: tb'_nth)
      then show ?thesis by simp
    next
      case True
      have f1: "1 \<le> fwd x p"
      proof (rule ccontr)
        assume "\<not> 1 \<le> fwd x p"
        then have "fwd x p = 0" by simp
        then have "slot_at x (fwd x p) = slot_at x 0" by simp
        then show False using px x p by (simp add: slot_at_fwd slot_at_0)
      qed
      have f2: "fwd x p < m"
      proof (rule ccontr)
        assume nlt: "\<not> fwd x p < m"
        have "fwd x p \<noteq> m"
        proof
          assume "fwd x p = m"
          then have "slot_at x (fwd x p) = slot_at x m" by simp
          then show False using Em occ0 x p by (simp add: slot_at_fwd)
        qed
        then have outside: "fwd x p < 0 \<or> m < fwd x p" using nlt by simp
        have on: "?q = slot_at x 0" using True x by (simp add: slot_at_0)
        have "0 < m" using m1 by simp
        from path_avoids[OF x pix_slot_lt p this mT outside d on _ Em] full
        show False by blast
      qed
      have "fwd x ?q < 1" using True x fwd_slot_at[of x 0] by (simp add: slot_at_0 T_pos)
      then show ?thesis using f1 f2 by simp
    qed
  qed
  have E': "pix_table s' ! slot_at x m = 0" using Em by (simp add: tb'_nth slot_at_lt)
  have run': "\<forall>k. 1 \<le> k \<and> k < m \<longrightarrow> pix_table s' ! slot_at x k \<noteq> 0"
  proof (intro allI impI)
    fix k assume k: "1 \<le> k \<and> k < m"
    then have "slot_at x k \<noteq> x" using not_x[of k] mT by simp
    moreover have "?tb ! slot_at x k \<noteq> 0" using runm[of k] k by simp
    ultimately show "pix_table s' ! slot_at x k \<noteq> 0" by (simp add: tb'_nth slot_at_lt)
  qed
  have slotinj': "\<forall>p < ?T. \<forall>q < ?T.
      pix_table s' ! p \<noteq> 0 \<and> pix_table s' ! p = pix_table s' ! q \<longrightarrow> p = q"
  proof (intro allI impI)
    fix p q assume p: "p < ?T" and q: "q < ?T"
      and pq: "pix_table s' ! p \<noteq> 0 \<and> pix_table s' ! p = pix_table s' ! q"
    then have "p \<noteq> x" "q \<noteq> x" by (auto simp: tb'_nth split: if_splits)
    then show "p = q" using slotinj p q pq by (simp add: tb'_nth)
  qed
  have valid': "\<forall>v \<in> vals s'. val_valid s' v"
    using valid unfolding vals' by (simp add: s'_def)
  have keyinj': "\<forall>v \<in> vals s'. \<forall>w \<in> vals s'. key_of s' v = key_of s' w \<longrightarrow> v = w"
    using keyinj unfolding vals' by (simp add: s'_def)
  have cnt': "account_count s' \<le> MAX_ACCOUNTS" using cnt by (simp add: s'_def)
  have "rehash_inv s' x 1 m"
    unfolding rehash_inv_def
    using len' cnt' x m1 mT E' run' valid' keyinj' slotinj' paths'
    by (intro conjI) simp_all
  from rehash_correct[OF this] obtain r where
    "pix_rehash_loop s' (slot_at x 1) = Some r" "table_inv r" "accounts r = accounts s'"
    "account_count r = account_count s'" "vals r = vals s'"
    by blast
  then show ?thesis using rem vals' by (auto simp: s'_def next_slot_eq)
qed

lemma remove_absent:
  assumes inv: "table_inv s" and none: "\<forall>v \<in> vals s. key_of s v \<noteq> key"
  shows "pix_remove s key = Some s"
proof (cases "key = []")
  case True
  then show ?thesis by (simp add: pix_remove_def)
next
  case False
  let ?h = "pix_slot key"
  have len: "length (pix_table s) = PIX_TABLE_SIZE" using inv by (simp add: table_inv_def)
  obtain e where e: "e < PIX_TABLE_SIZE" "pix_table s ! e = 0"
    using table_inv_has_empty[OF inv] by blast
  then have "pix_table s ! slot_at ?h (fwd ?h e) = 0" by (simp add: slot_at_fwd pix_slot_lt)
  then obtain d0 where d0: "pix_table s ! slot_at ?h d0 = 0"
    "\<forall>d < d0. pix_table s ! slot_at ?h d \<noteq> 0"
    by (rule first_empty)
  have before: "\<forall>d < d0. pix_table s ! slot_at ?h d \<noteq> 0
      \<and> key_of s (pix_table s ! slot_at ?h d) \<noteq> key"
    using d0(2) none len by (auto simp: vals_nth slot_at_lt)
  have "pix_remove s key = pix_remove_loop s key (slot_at ?h 0)"
    using False by (simp add: pix_remove_def slot_at_0 pix_slot_lt)
  also have "\<dots> = pix_remove_loop s key (slot_at ?h d0)" using before by (rule remove_walk)
  also have "\<dots> = Some s" using d0(1) by (rule remove_miss)
  finally show ?thesis .
qed

lemma insert_new:
  assumes inv: "table_inv s" and valid: "val_valid s (ai + 1)" and key: "key_of s (ai + 1) = key"
    and none: "\<forall>v \<in> vals s. key_of s v \<noteq> key"
  shows "\<exists>r. pix_insert s key ai = Some r \<and> table_inv r \<and> accounts r = accounts s
            \<and> account_count r = account_count s \<and> vals r = insert (ai + 1) (vals s)"
proof -
  let ?T = "PIX_TABLE_SIZE"
  let ?tb = "pix_table s"
  let ?h = "pix_slot key"
  let ?v = "ai + 1"
  have len: "length ?tb = ?T" and cnt: "account_count s \<le> MAX_ACCOUNTS"
    and valids: "\<forall>v \<in> vals s. val_valid s v"
    and keyinj: "\<forall>v \<in> vals s. \<forall>w \<in> vals s. key_of s v = key_of s w \<longrightarrow> v = w"
    and slotinj: "\<forall>p < ?T. \<forall>q < ?T. ?tb ! p \<noteq> 0 \<and> ?tb ! p = ?tb ! q \<longrightarrow> p = q"
    and probes: "\<forall>p < ?T. ?tb ! p \<noteq> 0 \<longrightarrow> probe_ok s p"
    using inv unfolding table_inv_def by blast+
  have ne: "key \<noteq> []" using valid key by (auto simp: val_valid_def key_of_def)
  have v0: "?v \<noteq> 0" using valid by (simp add: val_valid_def)
  have vnew: "?v \<notin> vals s" using none key by auto
  obtain e0 where e0: "e0 < ?T" "?tb ! e0 = 0" using table_inv_has_empty[OF inv] by blast
  then have "?tb ! slot_at ?h (fwd ?h e0) = 0" by (simp add: slot_at_fwd pix_slot_lt)
  then obtain d0 where d0le: "d0 \<le> fwd ?h e0" and d0: "?tb ! slot_at ?h d0 = 0"
    and d0b: "\<forall>d < d0. ?tb ! slot_at ?h d \<noteq> 0"
    by (rule first_empty)
  have d0T: "d0 < ?T" using d0le fwd_lt[of ?h e0] by simp
  define e where "e = slot_at ?h d0"
  have eT: "e < ?T" unfolding e_def by (rule slot_at_lt)
  have before: "\<forall>d < d0. ?tb ! slot_at ?h d \<noteq> 0 \<and> key_of s (?tb ! slot_at ?h d) \<noteq> key"
    using d0b none len by (auto simp: vals_nth slot_at_lt)
  define r where "r = s\<lparr>pix_table := ?tb[e := ?v]\<rparr>"
  have ins: "pix_insert s key ai = Some r"
    using insert_mech[OF ne d0 before] by (simp add: r_def e_def)
  have r_nth: "pix_table r ! p = (if p = e then ?v else ?tb ! p)" if "p < ?T" for p
    using that len by (simp add: r_def nth_list_update)
  have lenr: "length (pix_table r) = ?T" using len by (simp add: r_def)
  have keyr: "key_of r w = key_of s w" for w by (simp add: r_def)
  have validr: "val_valid r w = val_valid s w" for w by (simp add: r_def)
  have valsr: "vals r = insert ?v (vals s)"
  proof (intro set_eqI iffI)
    fix w assume "w \<in> vals r"
    then obtain p where p: "p < ?T" "pix_table r ! p = w" "w \<noteq> 0"
      using lenr by (auto simp: vals_def)
    then show "w \<in> insert ?v (vals s)"
      using len by (cases "p = e") (auto simp: r_nth vals_def)
  next
    fix w assume w: "w \<in> insert ?v (vals s)"
    show "w \<in> vals r"
    proof (cases "w = ?v")
      case True
      then have "pix_table r ! e = w" using eT by (simp add: r_nth)
      then show ?thesis using True v0 eT lenr by (auto simp: vals_def)
    next
      case False
      then obtain p where p: "p < ?T" "?tb ! p = w" "w \<noteq> 0"
        using w len by (auto simp: vals_def)
      then have "p \<noteq> e" using d0 by (auto simp: e_def)
      then have "pix_table r ! p = w" using p by (simp add: r_nth)
      then show ?thesis using p lenr by (auto simp: vals_def)
    qed
  qed
  have slotinjr: "\<forall>p < ?T. \<forall>q < ?T. pix_table r ! p \<noteq> 0 \<and> pix_table r ! p = pix_table r ! q \<longrightarrow> p = q"
  proof (intro allI impI)
    fix p q assume p: "p < ?T" and q: "q < ?T"
      and pq: "pix_table r ! p \<noteq> 0 \<and> pix_table r ! p = pix_table r ! q"
    have notin: "?tb ! t \<noteq> ?v" if "t < ?T" for t
      using vnew v0 that len by (auto simp: vals_def)
    show "p = q"
    proof (cases "p = e")
      case True
      then show ?thesis using pq p q notin[of q] by (auto simp: r_nth split: if_splits)
    next
      case False
      then have "q \<noteq> e" using pq p q notin[of p] by (auto simp: r_nth split: if_splits)
      then show ?thesis using False slotinj p q pq by (simp add: r_nth)
    qed
  qed
  have probesr: "\<forall>p < ?T. pix_table r ! p \<noteq> 0 \<longrightarrow> probe_ok r p"
  proof (intro allI impI)
    fix p assume p: "p < ?T" and occ: "pix_table r ! p \<noteq> 0"
    show "probe_ok r p"
    proof (cases "p = e")
      case True
      have home: "pix_slot (key_of r (pix_table r ! p)) = ?h"
        using True p key by (simp add: r_nth keyr)
      have fe: "fwd ?h e = d0" unfolding e_def using pix_slot_lt d0T by (rule fwd_slot_at)
      have "pix_table r ! slot_at ?h d \<noteq> 0" if "d < d0" for d
      proof -
        have "slot_at ?h d \<noteq> e" using that d0T slot_at_inj[of d d0 ?h] by (auto simp: e_def)
        then show ?thesis using d0b that by (simp add: r_nth slot_at_lt)
      qed
      then show ?thesis unfolding probe_ok_def home using True fe by simp
    next
      case False
      then have same: "pix_table r ! p = ?tb ! p" using p by (simp add: r_nth)
      then have "probe_ok s p" using probes p occ by simp
      then have old: "\<forall>d < fwd (pix_slot (key_of s (?tb ! p))) p.
          ?tb ! slot_at (pix_slot (key_of s (?tb ! p))) d \<noteq> 0"
        by (simp add: probe_ok_def)
      have "pix_table r ! t \<noteq> 0" if "?tb ! t \<noteq> 0" "t < ?T" for t
        using that v0 by (simp add: r_nth)
      then show ?thesis unfolding probe_ok_def same keyr using old slot_at_lt by blast
    qed
  qed
  have "table_inv r"
    unfolding table_inv_def
  proof (intro conjI)
    show "length (pix_table r) = ?T" by (rule lenr)
    show "account_count r \<le> MAX_ACCOUNTS" using cnt by (simp add: r_def)
    show "\<forall>v \<in> vals r. val_valid r v" unfolding valsr validr using valids valid by simp
    show "\<forall>v \<in> vals r. \<forall>w \<in> vals r. key_of r v = key_of r w \<longrightarrow> v = w"
      unfolding valsr keyr using keyinj none key by auto
    show "\<forall>p < ?T. \<forall>q < ?T. pix_table r ! p \<noteq> 0 \<and> pix_table r ! p = pix_table r ! q \<longrightarrow> p = q"
      by (rule slotinjr)
    show "\<forall>p < ?T. pix_table r ! p \<noteq> 0 \<longrightarrow> probe_ok r p" by (rule probesr)
  qed
  then show ?thesis using ins valsr by (auto simp: r_def)
qed

text \<open>what a successful lookup returns\<close>

lemma find_loop_result:
  assumes "pix_find_loop s key idx = Some h"
  shows "idx < PIX_TABLE_SIZE \<longrightarrow> 0 \<le> h \<longrightarrow>
     (\<exists>p < PIX_TABLE_SIZE. pix_table s ! p = h + 1 \<and> val_valid s (h + 1) \<and> key_of s (h + 1) = key)"
  by (rule pix_find_loop.raw_induct[where P="\<lambda>s key idx h. idx < PIX_TABLE_SIZE \<longrightarrow> 0 \<le> h \<longrightarrow>
     (\<exists>p < PIX_TABLE_SIZE. pix_table s ! p = h + 1 \<and> val_valid s (h + 1) \<and> key_of s (h + 1) = key)",
     OF _ assms])
    (auto simp: Let_def val_valid_def key_of_def next_slot_def T_pos split: if_splits)

lemma find_result:
  assumes "pix_find s key = Some h" "0 \<le> h"
  shows "\<exists>p < PIX_TABLE_SIZE. pix_table s ! p = h + 1 \<and> val_valid s (h + 1) \<and> key_of s (h + 1) = key"
  using assms find_loop_result[of s key "pix_slot key" h] pix_slot_lt
  by (auto simp: pix_find_def split: if_splits)

lemma vals_cong: "pix_table r = pix_table s \<Longrightarrow> vals r = vals s"
  by (simp add: vals_def)

lemma table_inv_cong:
  assumes inv: "table_inv s" and tb: "pix_table r = pix_table s"
    and cnt: "account_count s \<le> account_count r" "account_count r \<le> MAX_ACCOUNTS"
    and same: "\<forall>v \<in> vals s. pix_key (accounts r ! nat (v - 1)) = pix_key (accounts s ! nat (v - 1))
                 \<and> used (accounts r ! nat (v - 1)) = used (accounts s ! nat (v - 1))"
  shows "table_inv r"
proof -
  have vr: "vals r = vals s" using tb by (rule vals_cong)
  have len: "length (pix_table s) = PIX_TABLE_SIZE" using inv by (simp add: table_inv_def)
  have k: "key_of r v = key_of s v" if "v \<in> vals s" for v
    using same that by (simp add: key_of_def)
  have vv: "val_valid r v" if "v \<in> vals s" for v
  proof -
    have "val_valid s v" using inv that by (simp add: table_inv_def)
    then show ?thesis using same that cnt by (simp add: val_valid_def)
  qed
  have kt: "key_of r (pix_table s ! p) = key_of s (pix_table s ! p)"
    if "p < PIX_TABLE_SIZE" "pix_table s ! p \<noteq> 0" for p
    using that len by (intro k) (simp add: vals_nth)
  have "probe_ok r p" if "p < PIX_TABLE_SIZE" "pix_table r ! p \<noteq> 0" for p
  proof -
    have "probe_ok s p" using inv that tb by (simp add: table_inv_def)
    then show ?thesis using that tb kt[of p] by (simp add: probe_ok_def)
  qed
  then show ?thesis
    using inv unfolding table_inv_def vr
    by (simp add: tb cnt k vv)
qed

lemma find_account_key:
  assumes inv: "pix_inv s" and i: "i < account_count s" and key: "pix_key (accounts s ! i) = k"
    and ne: "k \<noteq> []"
  shows "pix_find s k = Some (int i)"
proof -
  have t: "table_inv s" using inv by (simp add: pix_inv_def)
  have "int i + 1 \<in> vals s" using inv i key ne by (simp add: pix_inv_def)
  then obtain p where p: "p < length (pix_table s)" "pix_table s ! p = int i + 1"
    by (auto simp: vals_def)
  have len: "length (pix_table s) = PIX_TABLE_SIZE" using t by (simp add: table_inv_def)
  have "pix_find s k = Some (pix_table s ! p - 1)"
    using t p len key by (intro find_present) (auto simp: key_of_def)
  then show ?thesis using p by simp
qed

lemma vals_are_accounts:
  assumes "table_inv s" "v \<in> vals s"
  shows "\<exists>j < account_count s. v = int j + 1 \<and> key_of s v = pix_key (accounts s ! j)
           \<and> pix_key (accounts s ! j) \<noteq> []"
proof -
  have "val_valid s v" using assms by (simp add: table_inv_def)
  then have "nat (v - 1) < account_count s \<and> v = int (nat (v - 1)) + 1
      \<and> key_of s v = pix_key (accounts s ! nat (v - 1)) \<and> pix_key (accounts s ! nat (v - 1)) \<noteq> []"
    by (auto simp: val_valid_def key_of_def)
  then show ?thesis by blast
qed

lemma find_no_key:
  assumes inv: "pix_inv s" and none: "\<forall>i < account_count s. pix_key (accounts s ! i) \<noteq> k"
  shows "pix_find s k = Some (- 1)"
proof -
  have t: "table_inv s" using inv by (simp add: pix_inv_def)
  have "\<forall>v \<in> vals s. key_of s v \<noteq> k"
    using vals_are_accounts[OF t] none by metis
  with t show ?thesis by (rule find_absent)
qed

lemma account_keys_distinct:
  assumes inv: "pix_inv s" and i: "i < account_count s" and j: "j < account_count s"
    and same: "pix_key (accounts s ! i) = pix_key (accounts s ! j)" and ne: "pix_key (accounts s ! i) \<noteq> []"
  shows "i = j"
proof -
  have "pix_find s (pix_key (accounts s ! i)) = Some (int i)"
    using inv i ne by (intro find_account_key) auto
  moreover have "pix_find s (pix_key (accounts s ! i)) = Some (int j)"
    using inv j ne same by (intro find_account_key) auto
  ultimately show ?thesis by simp
qed

text \<open>The lookup as a function of the accounts' keys.\<close>

lemma pix_find_char:
  assumes inv: "pix_inv s"
  shows "pix_find s k =
     Some (if k \<noteq> [] \<and> (\<exists>i < account_count s. pix_key (accounts s ! i) = k)
           then int (LEAST i. i < account_count s \<and> pix_key (accounts s ! i) = k) else - 1)"
proof (cases "k \<noteq> [] \<and> (\<exists>i < account_count s. pix_key (accounts s ! i) = k)")
  case True
  let ?P = "\<lambda>i. i < account_count s \<and> pix_key (accounts s ! i) = k"
  from True obtain i where "?P i" by blast
  then have "?P (LEAST i. ?P i)" by (rule LeastI)
  then have "pix_find s k = Some (int (LEAST i. ?P i))"
    using inv True by (intro find_account_key) auto
  then show ?thesis using True by simp
next
  case False
  show ?thesis
  proof (cases "k = []")
    case True
    then show ?thesis by (simp add: pix_find_def)
  next
    case ne: False
    then have "\<forall>i < account_count s. pix_key (accounts s ! i) \<noteq> k" using False by blast
    then have "pix_find s k = Some (- 1)" using inv by (intro find_no_key)
    then show ?thesis using False by simp
  qed
qed

lemma upd_account_sel [simp]:
  "accounts (upd_account s i f) = (accounts s)[i := f (accounts s ! i)]"
  "account_count (upd_account s i f) = account_count s"
  "pix_table (upd_account s i f) = pix_table s"
  by (simp_all add: upd_account_def)

lemma log_account_tx_sel [simp]:
  "accounts (log_account_tx s i ty amt nt) =
     (accounts s)[i := (accounts s ! i)\<lparr>txlog := txlog_push (txlog (accounts s ! i)) ty amt nt\<rparr>]"
  "account_count (log_account_tx s i ty amt nt) = account_count s"
  "pix_table (log_account_tx s i ty amt nt) = pix_table s"
  by (simp_all add: log_account_tx_def)

lemma nth_upd:
  "xs[i := y] ! j = (if j = i \<and> i < length xs then y else xs ! j)"
  by (cases "i < length xs") (auto simp: nth_list_update list_update_beyond)

lemma table_inv_upd:
  assumes inv: "table_inv s"
    and ok: "int i + 1 \<notin> vals s \<or> (pix_key (f (accounts s ! i)) = pix_key (accounts s ! i)
                \<and> used (f (accounts s ! i)) = used (accounts s ! i))"
  shows "table_inv (upd_account s i f)"
proof (rule table_inv_cong[OF inv])
  show "\<forall>v \<in> vals s.
      pix_key (accounts (upd_account s i f) ! nat (v - 1)) = pix_key (accounts s ! nat (v - 1))
      \<and> used (accounts (upd_account s i f) ! nat (v - 1)) = used (accounts s ! nat (v - 1))"
  proof
    fix v assume v: "v \<in> vals s"
    then have "val_valid s v" using inv by (simp add: table_inv_def)
    then have "1 \<le> v" by (simp add: val_valid_def)
    then have "nat (v - 1) = i \<Longrightarrow> v = int i + 1" by auto
    then show "pix_key (accounts (upd_account s i f) ! nat (v - 1)) = pix_key (accounts s ! nat (v - 1))
      \<and> used (accounts (upd_account s i f) ! nat (v - 1)) = used (accounts s ! nat (v - 1))"
      using ok v by (auto simp: nth_upd)
  qed
  show "account_count (upd_account s i f) \<le> MAX_ACCOUNTS"
    using inv by (simp add: table_inv_def)
qed simp_all

lemma readln_len: "length (readln line cap) \<le> cap - 1"
  by (simp add: readln_def)

lemma safe_strcpy_readln [simp]:
  "safe_strcpy d (readln line MAX_PIX_LEN) MAX_PIX_LEN = readln line MAX_PIX_LEN"
  by (simp add: safe_strcpy_def readln_def MAX_PIX_LEN_def)

lemma menu_set_pix_empty:
  "readln line MAX_PIX_LEN = [] \<Longrightarrow> menu_set_pix s i line = Some (''PIX key cannot be empty.'', s)"
  by (simp add: menu_set_pix_def)

lemma menu_set_pix_taken:
  assumes inv: "pix_inv s" and j: "j < account_count s" "j \<noteq> i"
    and key: "pix_key (accounts s ! j) = readln line MAX_PIX_LEN"
    and ne: "readln line MAX_PIX_LEN \<noteq> []"
  shows "menu_set_pix s i line = Some (''This PIX key is already registered.'', s)"
proof -
  have "pix_find s (readln line MAX_PIX_LEN) = Some (int j)"
    using inv j(1) key ne by (rule find_account_key)
  then show ?thesis using ne j by (simp add: menu_set_pix_def Let_def)
qed

lemma menu_set_pix_free:
  assumes inv: "pix_inv s" and i: "i < account_count s"
    and ne: "readln line MAX_PIX_LEN \<noteq> []"
    and free: "\<forall>j < account_count s. j \<noteq> i \<longrightarrow> pix_key (accounts s ! j) \<noteq> readln line MAX_PIX_LEN"
  shows "\<exists>r. menu_set_pix s i line = Some (''PIX key updated successfully.'', r)
          \<and> pix_inv r \<and> account_count r = account_count s
          \<and> accounts r = (accounts s)[i := set_pix_account (accounts s ! i) (readln line MAX_PIX_LEN)]"
proof -
  let ?pix = "readln line MAX_PIX_LEN"
  let ?k0 = "pix_key (accounts s ! i)"
  let ?v = "int i + 1"
  have t: "table_inv s" and lena: "length (accounts s) = MAX_ACCOUNTS"
    and used: "\<forall>i < account_count s. used (accounts s ! i)"
    and complete: "\<forall>i < account_count s. pix_key (accounts s ! i) \<noteq> [] \<longrightarrow> int i + 1 \<in> vals s"
    using inv by (simp_all add: pix_inv_def)
  have cnt: "account_count s \<le> MAX_ACCOUNTS" using t by (simp add: table_inv_def)
  have il: "i < length (accounts s)" using i cnt lena by simp
  \<comment> \<open>the lookup\<close>
  obtain ex where ex: "pix_find s ?pix = Some ex" "\<not> (0 \<le> ex \<and> ex \<noteq> int i)"
  proof (cases "?k0 = ?pix")
    case True
    then have "pix_find s ?pix = Some (int i)" using inv i ne by (intro find_account_key) auto
    then show ?thesis using that by simp
  next
    case False
    then have "\<forall>j < account_count s. pix_key (accounts s ! j) \<noteq> ?pix" using free by metis
    then have "pix_find s ?pix = Some (- 1)" using inv by (intro find_no_key)
    then show ?thesis using that by simp
  qed
  \<comment> \<open>removal of the old key\<close>
  define A where "A = (if ?k0 \<noteq> [] then
                    map_option (\<lambda>r. upd_account r i (\<lambda>a. a\<lparr>pix_key := []\<rparr>)) (pix_remove s ?k0)
                  else Some s)"
  have "\<exists>s2. A = Some s2 \<and> table_inv s2 \<and> vals s2 = vals s - {?v} \<and> account_count s2 = account_count s
       \<and> accounts s2 = (accounts s)[i := (accounts s ! i)\<lparr>pix_key := []\<rparr>]"
  proof (cases "?k0 \<noteq> []")
    case True
    then have "?v \<in> vals s" using complete i by blast
    then obtain x where x: "x < length (pix_table s)" "pix_table s ! x = ?v"
      by (auto simp: vals_def)
    have len: "length (pix_table s) = PIX_TABLE_SIZE" using t by (simp add: table_inv_def)
    have "key_of s (pix_table s ! x) = ?k0" using x by (simp add: key_of_def)
    from remove_present[OF t _ _ this] x len
    obtain r1 where r1: "pix_remove s ?k0 = Some r1" "table_inv r1" "accounts r1 = accounts s"
      "account_count r1 = account_count s" "vals r1 = vals s - {?v}"
      by auto
    let ?s2 = "upd_account r1 i (\<lambda>a. a\<lparr>pix_key := []\<rparr>)"
    have "table_inv ?s2" using r1 by (intro table_inv_upd) auto
    moreover have "vals ?s2 = vals s - {?v}" using r1 vals_cong[of ?s2 r1] by simp
    ultimately show ?thesis using True r1 by (simp add: A_def)
  next
    case False
    have "?v \<notin> vals s"
    proof
      assume "?v \<in> vals s"
      then have "val_valid s ?v" using t by (simp add: table_inv_def)
      then show False using False by (simp add: val_valid_def)
    qed
    then have "vals s - {?v} = vals s" by simp
    moreover have "(accounts s ! i)\<lparr>pix_key := []\<rparr> = accounts s ! i" using False by simp
    then have "(accounts s)[i := (accounts s ! i)\<lparr>pix_key := []\<rparr>] = accounts s"
      by simp
    ultimately show ?thesis using False t by (simp add: A_def)
  qed
  then obtain s2 where s2: "A = Some s2" "table_inv s2" "vals s2 = vals s - {?v}"
    "account_count s2 = account_count s"
    "accounts s2 = (accounts s)[i := (accounts s ! i)\<lparr>pix_key := []\<rparr>]"
    by blast
  \<comment> \<open>the new key\<close>
  define s3 where "s3 = upd_account s2 i (\<lambda>a. a\<lparr>pix_key := safe_strcpy (pix_key a) ?pix MAX_PIX_LEN\<rparr>)"
  have acc3: "accounts s3 = (accounts s)[i := (accounts s ! i)\<lparr>pix_key := ?pix\<rparr>]"
    using il by (simp add: s3_def s2)
  have cnt3: "account_count s3 = account_count s" by (simp add: s3_def s2)
  have vals3: "vals s3 = vals s - {?v}" using vals_cong[of s3 s2] s2 by (simp add: s3_def)
  have t3: "table_inv s3" unfolding s3_def using s2 by (intro table_inv_upd) auto
  have key3: "pix_key (accounts s3 ! i) = ?pix" using il by (simp add: acc3)
  have valid3: "val_valid s3 (int i + 1)"
    using i il used ne by (simp add: val_valid_def acc3 cnt3)
  have keyof3: "key_of s3 (int i + 1) = ?pix" by (simp add: key_of_def key3)
  have none3: "\<forall>v \<in> vals s3. key_of s3 v \<noteq> ?pix"
  proof
    fix v assume v: "v \<in> vals s3"
    from vals_are_accounts[OF t3 v] obtain j where
      j: "j < account_count s3" "v = int j + 1" "key_of s3 v = pix_key (accounts s3 ! j)"
      by blast
    have "j \<noteq> i" using v j vals3 by auto
    then have "pix_key (accounts s3 ! j) = pix_key (accounts s ! j)" by (simp add: acc3)
    then show "key_of s3 v \<noteq> ?pix" using free j cnt3 \<open>j \<noteq> i\<close> by simp
  qed
  from insert_new[OF t3 valid3 keyof3 none3] obtain s4 where
    s4: "pix_insert s3 ?pix (int i) = Some s4" "table_inv s4" "accounts s4 = accounts s3"
    "account_count s4 = account_count s3" "vals s4 = insert ?v (vals s3)"
    by blast
  define r where "r = log_account_tx s4 i TX_MISC 0 ''PIX key set/updated''"
  have accr: "accounts r = (accounts s)[i := set_pix_account (accounts s ! i) ?pix]"
    using il by (simp add: r_def s4 acc3 set_pix_account_def)
  have cntr: "account_count r = account_count s" by (simp add: r_def s4 cnt3)
  have valsr: "vals r = insert ?v (vals s)"
    using vals_cong[of r s4] s4 vals3 by (auto simp: r_def)
  have tr: "table_inv r"
    unfolding r_def log_account_tx_def using s4 by (intro table_inv_upd) auto
  have res: "menu_set_pix s i line = Some (''PIX key updated successfully.'', r)"
    using ne ex s2(1) s4(1) key3
    by (auto simp: menu_set_pix_def Let_def A_def s3_def r_def split: if_splits)
  have "pix_inv r"
    unfolding pix_inv_def
  proof (intro conjI allI impI)
    show "table_inv r" by (rule tr)
    show "length (accounts r) = MAX_ACCOUNTS" using lena by (simp add: accr)
    show "used (accounts r ! j)" if "j < account_count r" for j
      using that used cntr il by (simp add: accr nth_upd set_pix_account_def)
    show "int j + 1 \<in> vals r" if "j < account_count r" "pix_key (accounts r ! j) \<noteq> []" for j
    proof (cases "j = i")
      case True
      then show ?thesis by (simp add: valsr)
    next
      case False
      then have "pix_key (accounts s ! j) \<noteq> []" using that by (simp add: accr)
      then show ?thesis using complete that cntr by (simp add: valsr)
    qed
  qed
  then show ?thesis using res cntr accr by blast
qed

lemma upd_account_twice:
  "upd_account (upd_account s i f) i g = upd_account s i (\<lambda>a. g (f a))"
  by (cases "i < length (accounts s)") (simp_all add: upd_account_def list_update_beyond)

lemma log_account_tx_upd:
  "log_account_tx (upd_account s i f) i ty amt nt =
     upd_account s i (\<lambda>a. (f a)\<lparr>txlog := txlog_push (txlog (f a)) ty amt nt\<rparr>)"
  by (simp add: log_account_tx_def upd_account_twice)

lemma deposit_state:
  "snd (deposit s i amt) =
     (if amt \<le>s 0 then s
      else upd_account s i (\<lambda>a. a\<lparr>balance := balance a + amt,
             txlog := txlog_push (txlog a) TX_DEPOSIT amt (deposit_note amt)\<rparr>))"
  by (simp add: deposit_def Let_def log_account_tx_upd deposit_note_def)

lemma withdraw_state:
  "snd (withdraw s i amt) =
     (if amt \<le>s 0 \<or> \<not> amt \<le>s balance (accounts s ! i) then s
      else upd_account s i (\<lambda>a. a\<lparr>balance := balance a - amt,
             txlog := txlog_push (txlog a) TX_WITHDRAW amt (withdraw_note amt)\<rparr>))"
  by (simp add: withdraw_def Let_def log_account_tx_upd withdraw_note_def)

lemma change_credit_limit_state:
  "snd (change_credit_limit s i nl) =
     (if \<not> credit_used (accounts s ! i) \<le>s nl then s
      else upd_account s i (\<lambda>a. a\<lparr>credit_limit := nl,
             txlog := txlog_push (txlog a) TX_MISC 0 (limit_note nl)\<rparr>))"
  by (simp add: change_credit_limit_def Let_def log_account_tx_upd limit_note_def)

lemma change_password_state:
  "snd (change_password s i oldp newp) =
     (if password (accounts s ! i) \<noteq> oldp \<or> newp = [] then s
      else upd_account s i (\<lambda>a. a\<lparr>password := safe_strcpy (password a) newp MAX_PASS_LEN,
             txlog := txlog_push (txlog a) TX_MISC 0 ''Password changed''\<rparr>))"
  by (simp add: change_password_def Let_def log_account_tx_upd)

lemma transfer_own:
  assumes "pix_key (accounts s ! i) \<noteq> []" "key = pix_key (accounts s ! i)"
  shows "transfer s i amt key =
     (if amt \<le>s 0 then Some (''Invalid transfer amount.'', s)
      else if amt \<le>s credit_limit (accounts s ! i) - credit_used (accounts s ! i) then
        Some (''Added '' @ cents_str amt 64 @ '' to balance using credit.'',
              upd_account s i (\<lambda>a. a\<lparr>credit_used := credit_used a + amt, balance := balance a + amt,
                 txlog := txlog_push (txlog a) TX_CREDIT_ADV amt (credit_note amt)\<rparr>))
      else Some (''Not enough credit available.'', s))"
  using assms
  by (simp add: transfer_def Let_def log_account_tx_upd upd_account_twice credit_note_def)

lemma upd_account_commute:
  "i \<noteq> t \<Longrightarrow> upd_account (upd_account s i f) t g = upd_account (upd_account s t g) i f"
  by (simp add: upd_account_def list_update_swap)

lemma transfer_other:
  assumes own: "pix_key (accounts s ! i) \<noteq> []" and key: "key \<noteq> pix_key (accounts s ! i)"
    and pos: "0 <s amt" and found: "pix_find s key = Some (int t)" and ti: "t \<noteq> i"
    and il: "i < length (accounts s)" and tl: "t < length (accounts s)"
  shows "transfer s i amt key =
     (if amt \<le>s balance (accounts s ! i) then
        Some (''Transferred '' @ cents_str amt 64 @ '' to '' @ username (accounts s ! t) @ ''.'',
              upd_account
                (upd_account s i (\<lambda>a. a\<lparr>balance := balance a - amt,
                    txlog := txlog_push (txlog a) TX_TRANSFER_OUT amt (note_out s t amt)\<rparr>))
                t (\<lambda>a. a\<lparr>balance := balance a + amt,
                    txlog := txlog_push (txlog a) TX_TRANSFER_IN amt (note_in s i amt)\<rparr>))
      else Some (''Insufficient funds for transfer.'', s))"
proof -
  have npos: "\<not> amt \<le>s 0" using pos by (simp add: word_sle_eq word_sless_alt)
  show ?thesis
    using own key npos found ti il tl
    by (simp add: transfer_def Let_def log_account_tx_def upd_account_def note_out_def note_in_def
        list_update_swap[of i t] nth_list_update)
qed

lemma sint64_range: "- (2 ^ 63) \<le> sint (x :: cents_t) \<and> sint x < 2 ^ 63"
  using sint_ge[of x] sint_lt[of x] by simp

lemma sint_add_fit:
  "- (2 ^ 63) \<le> sint a + sint b \<Longrightarrow> sint a + sint b < 2 ^ 63 \<Longrightarrow>
   sint (a + b :: cents_t) = sint a + sint b"
  by (simp add: sint_word_ariths signed_take_bit_int_eq_self)

lemma sint_sub_fit:
  "- (2 ^ 63) \<le> sint a - sint b \<Longrightarrow> sint a - sint b < 2 ^ 63 \<Longrightarrow>
   sint (a - b :: cents_t) = sint a - sint b"
  by (simp add: sint_word_ariths signed_take_bit_int_eq_self)

lemma sint_sub_le:
  assumes "0 \<le>s (b :: cents_t)" "b \<le>s a"
  shows "sint (a - b) = sint a - sint b"
  using assms sint64_range[of a] sint64_range[of b]
  by (intro sint_sub_fit) (auto simp: word_sle_eq)

lemma credit_advance_sint:
  assumes ok: "0 \<le>s (u :: cents_t)" "u \<le>s l" and pos: "0 <s amt" and le: "amt \<le>s l - u"
  shows "sint (u + amt) = sint u + sint amt \<and> sint u + sint amt \<le> sint l"
proof -
  have d: "sint (l - u) = sint l - sint u" using ok by (rule sint_sub_le)
  have "sint amt \<le> sint l - sint u" using le d by (simp add: word_sle_eq)
  moreover have "0 < sint amt" using pos by (simp add: word_sless_alt)
  moreover have "0 \<le> sint u" using ok by (simp add: word_sle_eq)
  ultimately show ?thesis
    using sint64_range[of l] by (simp add: sint_add_fit)
qed

lemma pix_inv_upd:
  assumes inv: "pix_inv s"
    and same: "pix_key (f (accounts s ! i)) = pix_key (accounts s ! i)"
      "used (f (accounts s ! i)) = used (accounts s ! i)"
  shows "pix_inv (upd_account s i f)"
proof -
  have t: "table_inv (upd_account s i f)"
    using inv same by (intro table_inv_upd) (auto simp: pix_inv_def)
  have v: "vals (upd_account s i f) = vals s" by (rule vals_cong) simp
  show ?thesis
    using inv t same unfolding pix_inv_def v
    by (auto simp: nth_upd)
qed

lemma acct_ok_upd:
  assumes "\<forall>a \<in> set (accounts s). acct_ok a"
    and "acct_ok (accounts s ! i) \<Longrightarrow> acct_ok (f (accounts s ! i))"
  shows "\<forall>a \<in> set (accounts (upd_account s i f)). acct_ok a"
proof (cases "i < length (accounts s)")
  case True
  then have "acct_ok (f (accounts s ! i))" using assms by simp
  then show ?thesis
    using assms(1) set_update_subset_insert[of "accounts s" i "f (accounts s ! i)"] by auto
next
  case False
  then show ?thesis using assms(1) by (simp add: list_update_beyond)
qed

lemma bank_inv_upd:
  assumes "bank_inv s"
    and "pix_key (f (accounts s ! i)) = pix_key (accounts s ! i)"
    and "used (f (accounts s ! i)) = used (accounts s ! i)"
    and "acct_ok (accounts s ! i) \<Longrightarrow> acct_ok (f (accounts s ! i))"
  shows "bank_inv (upd_account s i f)"
  using assms unfolding bank_inv_def by (intro conjI pix_inv_upd acct_ok_upd) auto

lemma bank_inv_deposit: "bank_inv s \<Longrightarrow> bank_inv (snd (deposit s i amt))"
  unfolding deposit_state by (auto intro!: bank_inv_upd simp: acct_ok_def ring_ok_push)

lemma bank_inv_withdraw: "bank_inv s \<Longrightarrow> bank_inv (snd (withdraw s i amt))"
  unfolding withdraw_state by (auto intro!: bank_inv_upd simp: acct_ok_def ring_ok_push)

lemma bank_inv_change_credit_limit: "bank_inv s \<Longrightarrow> bank_inv (snd (change_credit_limit s i nl))"
  unfolding change_credit_limit_state by (auto intro!: bank_inv_upd simp: acct_ok_def ring_ok_push)

lemma bank_inv_change_password: "bank_inv s \<Longrightarrow> bank_inv (snd (change_password s i oldp newp))"
  unfolding change_password_state by (auto intro!: bank_inv_upd simp: acct_ok_def ring_ok_push)

lemma count_frame [simp]:
  "account_count (snd (deposit s i amt)) = account_count s"
  "account_count (snd (withdraw s i amt)) = account_count s"
  "account_count (snd (change_credit_limit s i nl)) = account_count s"
  "account_count (snd (change_password s i oldp newp)) = account_count s"
  by (simp_all add: deposit_state withdraw_state change_credit_limit_state change_password_state)

text \<open>a lookup returns, and what it returns\<close>

lemma pix_find_total:
  assumes "pix_inv s"
  shows "pix_find s k = Some (- 1)
     \<or> (\<exists>t < account_count s. pix_find s k = Some (int t) \<and> pix_key (accounts s ! t) = k \<and> k \<noteq> [])"
proof (cases "k \<noteq> [] \<and> (\<exists>i < account_count s. pix_key (accounts s ! i) = k)")
  case True
  then obtain t where t: "t < account_count s" "pix_key (accounts s ! t) = k" by blast
  then have "pix_find s k = Some (int t)" using assms True by (intro find_account_key) auto
  then show ?thesis using t True by blast
next
  case False
  then show ?thesis using pix_find_char[OF assms, of k] by auto
qed

lemma bank_inv_transfer:
  assumes inv: "bank_inv s" and i: "i < account_count s"
  shows "\<exists>m r. transfer s i amt key = Some (m, r) \<and> bank_inv r \<and> account_count r = account_count s"
proof -
  have p: "pix_inv s" using inv by (simp add: bank_inv_def)
  have lena: "length (accounts s) = MAX_ACCOUNTS" using p by (simp add: pix_inv_def)
  have cnt: "account_count s \<le> MAX_ACCOUNTS" using p by (simp add: pix_inv_def table_inv_def)
  have il: "i < length (accounts s)" using i cnt lena by simp
  have oki: "acct_ok (accounts s ! i)" using inv il by (simp add: bank_inv_def)
  show ?thesis
  proof (cases "pix_key (accounts s ! i) = []")
    case True
    then show ?thesis using inv by (simp add: transfer_def)
  next
    case own: False
    show ?thesis
    proof (cases "key = pix_key (accounts s ! i)")
      case True
      have "bank_inv (upd_account s i (\<lambda>a. a\<lparr>credit_used := credit_used a + amt,
               balance := balance a + amt,
               txlog := txlog_push (txlog a) TX_CREDIT_ADV amt (credit_note amt)\<rparr>))"
        if "\<not> amt \<le>s 0" "amt \<le>s credit_limit (accounts s ! i) - credit_used (accounts s ! i)"
      proof (rule bank_inv_upd[OF inv])
        have pos: "0 <s amt" using that(1) by (simp add: word_sle_eq word_sless_alt)
        have "sint (credit_used (accounts s ! i) + amt) =
                sint (credit_used (accounts s ! i)) + sint amt
            \<and> sint (credit_used (accounts s ! i)) + sint amt \<le> sint (credit_limit (accounts s ! i))"
          using oki pos that(2) by (intro credit_advance_sint) (auto simp: acct_ok_def)
        then show "acct_ok ((accounts s ! i)\<lparr>credit_used := credit_used (accounts s ! i) + amt,
               balance := balance (accounts s ! i) + amt,
               txlog := txlog_push (txlog (accounts s ! i)) TX_CREDIT_ADV amt (credit_note amt)\<rparr>)"
          using oki pos by (auto simp: acct_ok_def ring_ok_push word_sle_eq word_sless_alt)
      qed simp_all
      then show ?thesis using inv own True by (auto simp: transfer_own)
    next
      case other: False
      show ?thesis
      proof (cases "amt \<le>s 0")
        case True
        then show ?thesis using inv own other by (simp add: transfer_def)
      next
        case False
        then have pos: "0 <s amt" by (simp add: word_sle_eq word_sless_alt)
        from pix_find_total[OF p, of key] show ?thesis
        proof
          assume "pix_find s key = Some (- 1)"
          then show ?thesis using inv own other False by (simp add: transfer_def)
        next
          assume "\<exists>t < account_count s. pix_find s key = Some (int t)
              \<and> pix_key (accounts s ! t) = key \<and> key \<noteq> []"
          then obtain t where t: "t < account_count s" "pix_find s key = Some (int t)"
            "pix_key (accounts s ! t) = key" by blast
          have ti: "t \<noteq> i" using t other by auto
          have tl: "t < length (accounts s)" using t cnt lena by simp
          let ?s1 = "upd_account s i (\<lambda>a. a\<lparr>balance := balance a - amt,
                    txlog := txlog_push (txlog a) TX_TRANSFER_OUT amt (note_out s t amt)\<rparr>)"
          let ?s2 = "upd_account ?s1 t (\<lambda>a. a\<lparr>balance := balance a + amt,
                    txlog := txlog_push (txlog a) TX_TRANSFER_IN amt (note_in s i amt)\<rparr>)"
          have "bank_inv ?s1"
            by (rule bank_inv_upd[OF inv]) (auto simp: acct_ok_def ring_ok_push)
          then have "bank_inv ?s2"
            by (rule bank_inv_upd) (auto simp: acct_ok_def ring_ok_push)
          then show ?thesis
            using inv by (auto simp: transfer_other[OF own other pos t(2) ti il tl])
        qed
      qed
    qed
  qed
qed

lemma bank_inv_menu_set_pix:
  assumes inv: "bank_inv s" and i: "i < account_count s"
  shows "\<exists>m r. menu_set_pix s i line = Some (m, r) \<and> bank_inv r \<and> account_count r = account_count s"
proof -
  let ?pix = "readln line MAX_PIX_LEN"
  have p: "pix_inv s" using inv by (simp add: bank_inv_def)
  show ?thesis
  proof (cases "?pix = []")
    case True
    then show ?thesis using inv by (simp add: menu_set_pix_empty)
  next
    case ne: False
    show ?thesis
    proof (cases "\<exists>j < account_count s. j \<noteq> i \<and> pix_key (accounts s ! j) = ?pix")
      case True
      then obtain j where "j < account_count s" "j \<noteq> i" "pix_key (accounts s ! j) = ?pix" by blast
      from menu_set_pix_taken[OF p this ne] show ?thesis using inv by simp
    next
      case False
      then have "\<forall>j < account_count s. j \<noteq> i \<longrightarrow> pix_key (accounts s ! j) \<noteq> ?pix" by blast
      from menu_set_pix_free[OF p i ne this] obtain r where
        r: "menu_set_pix s i line = Some (''PIX key updated successfully.'', r)" "pix_inv r"
        "account_count r = account_count s"
        "accounts r = (accounts s)[i := set_pix_account (accounts s ! i) ?pix]"
        by blast
      have "accounts r = accounts (upd_account s i (\<lambda>a. set_pix_account a ?pix))"
        by (simp add: r)
      moreover have "\<forall>a \<in> set (accounts (upd_account s i (\<lambda>a. set_pix_account a ?pix))). acct_ok a"
        using inv by (intro acct_ok_upd) (auto simp: bank_inv_def acct_ok_def set_pix_account_def ring_ok_push)
      ultimately have "bank_inv r" using r(2) by (simp add: bank_inv_def)
      then show ?thesis using r by blast
    qed
  qed
qed

lemma menu_pure_step:
  assumes "bank_inv (snd pr)" "account_count (snd pr) = account_count s"
  shows "\<exists>out r. (let (m, r) = pr in Some ([m], r)) = Some (out, r) \<and> bank_inv r
           \<and> account_count r = account_count s"
  using assms by (cases pr) simp

lemma bank_inv_menu_step:
  assumes inv: "bank_inv s" and i: "i < account_count s"
  shows "\<exists>out r. menu_step s i x = Some (out, r) \<and> bank_inv r \<and> account_count r = account_count s"
proof (cases x)
  case (Op_Deposit line)
  show ?thesis
  proof (cases "read_cents_prompt line")
    case None
    then show ?thesis using inv Op_Deposit by simp
  next
    case (Some amt)
    then show ?thesis
      using Op_Deposit menu_pure_step[of "deposit s i amt" s] bank_inv_deposit[OF inv] by simp
  qed
next
  case (Op_Withdraw line)
  show ?thesis
  proof (cases "read_cents_prompt line")
    case None
    then show ?thesis using inv Op_Withdraw by simp
  next
    case (Some amt)
    then show ?thesis
      using Op_Withdraw menu_pure_step[of "withdraw s i amt" s] bank_inv_withdraw[OF inv] by simp
  qed
next
  case (Op_Transfer pixline line)
  show ?thesis
  proof (cases "read_cents_prompt line")
    case None
    then show ?thesis using inv Op_Transfer by simp
  next
    case (Some amt)
    from bank_inv_transfer[OF inv i, of amt "readln pixline MAX_PIX_LEN"]
    show ?thesis using Some Op_Transfer by auto
  qed
next
  case Op_Show_Info
  then show ?thesis using inv by simp
next
  case Op_View_Tx
  then show ?thesis using inv by simp
next
  case (Op_Set_Pix line)
  then show ?thesis
    using bank_inv_menu_set_pix[OF inv i, of line] by auto
next
  case (Op_Credit_Limit line)
  show ?thesis
  proof (cases "read_cents_prompt line")
    case None
    then show ?thesis using inv Op_Credit_Limit by simp
  next
    case (Some nl)
    then show ?thesis
      using Op_Credit_Limit menu_pure_step[of "change_credit_limit s i nl" s]
        bank_inv_change_credit_limit[OF inv] by simp
  qed
next
  case (Op_Password oldline newline)
  then show ?thesis
    using menu_pure_step[of "change_password s i (readln oldline MAX_PASS_LEN)
        (readln newline MAX_PASS_LEN)" s] bank_inv_change_password[OF inv] by simp
qed

lemma bank_inv_account_menu:
  assumes "bank_inv s" "i < account_count s"
  shows "\<exists>r. account_menu s i xs = Some r \<and> bank_inv r \<and> account_count r = account_count s"
  using assms
proof (induction xs arbitrary: s)
  case Nil
  then show ?case by simp
next
  case (Cons x xs)
  from bank_inv_menu_step[OF Cons.prems, of x] obtain out r where
    r: "menu_step s i x = Some (out, r)" "bank_inv r" "account_count r = account_count s"
    by blast
  from Cons.IH[OF r(2)] Cons.prems r show ?case by auto
qed

lemma find_account_by_name_lt:
  assumes "0 \<le> find_account_by_name s n"
  shows "nat (find_account_by_name s n) < account_count s"
proof (cases "List.find (\<lambda>i. used (accounts s ! i) \<and> username (accounts s ! i) = n)
     [0 ..< account_count s]")
  case None
  then show ?thesis using assms by (simp add: find_account_by_name_def)
next
  case (Some i)
  then have "i \<in> set [0 ..< account_count s]" by (auto simp: find_Some_iff)
  then show ?thesis using Some by (simp add: find_account_by_name_def)
qed

lemma bank_inv_log_in:
  assumes "bank_inv s"
  shows "\<exists>r. log_in s uline pline xs = Some r \<and> bank_inv r \<and> account_count r = account_count s"
proof (cases "0 \<le> find_account_by_name s (readln uline MAX_NAME_LEN)
     \<and> password (accounts s ! nat (find_account_by_name s (readln uline MAX_NAME_LEN)))
         = readln pline MAX_PASS_LEN")
  case True
  then have "nat (find_account_by_name s (readln uline MAX_NAME_LEN)) < account_count s"
    by (intro find_account_by_name_lt) simp
  from bank_inv_account_menu[OF assms this, of xs] show ?thesis
    using True by (simp add: log_in_def Let_def)
next
  case False
  then show ?thesis using assms by (auto simp: log_in_def Let_def)
qed

lemma acct_ok_zero: "acct_ok zero_account"
  by (simp add: acct_ok_def zero_account_def ring_ok_zero)

lemma acct_ok_fresh:
  "acct_ok (zero_account\<lparr>used := u, username := n, password := pw, agency := ag, balance := 0,
      credit_limit := 100 * 100, credit_used := 0\<rparr>)"
  by (simp add: acct_ok_def zero_account_def ring_ok_zero word_sle_eq)

lemma acct_ok_sample: "acct_ok (sample_account n k)"
  by (simp add: acct_ok_def sample_account_def zero_account_def ring_ok_zero word_sle_eq)

text \<open>a new account at the end of the array\<close>

lemma pix_inv_new_account:
  assumes inv: "pix_inv s" and room: "account_count s < MAX_ACCOUNTS"
    and a: "used a" "pix_key a = []"
  shows "pix_inv (s\<lparr>accounts := (accounts s)[account_count s := a],
                    account_count := account_count s + 1\<rparr>)"
proof -
  let ?r = "s\<lparr>accounts := (accounts s)[account_count s := a], account_count := account_count s + 1\<rparr>"
  have t: "table_inv s" and lena: "length (accounts s) = MAX_ACCOUNTS"
    using inv by (simp_all add: pix_inv_def)
  have old: "accounts ?r ! j = accounts s ! j" if "j < account_count s" for j
    using that by simp
  have tr: "table_inv ?r"
  proof (rule table_inv_cong[OF t])
    show "\<forall>v \<in> vals s.
      pix_key (accounts ?r ! nat (v - 1)) = pix_key (accounts s ! nat (v - 1))
      \<and> used (accounts ?r ! nat (v - 1)) = used (accounts s ! nat (v - 1))"
    proof
      fix v assume "v \<in> vals s"
      then have "val_valid s v" using t by (simp add: table_inv_def)
      then have "nat (v - 1) < account_count s" by (auto simp: val_valid_def)
      then show "pix_key (accounts ?r ! nat (v - 1)) = pix_key (accounts s ! nat (v - 1))
        \<and> used (accounts ?r ! nat (v - 1)) = used (accounts s ! nat (v - 1))"
        using old by simp
    qed
  qed (use room in simp_all)
  have v: "vals ?r = vals s" by (rule vals_cong) simp
  show ?thesis
    unfolding pix_inv_def v
    using inv tr a room lena
    by (auto simp: pix_inv_def nth_upd less_Suc_eq)
qed

lemma bank_inv_new_account:
  assumes inv: "bank_inv s" and room: "account_count s < MAX_ACCOUNTS"
    and a: "used a" "pix_key a = []" "acct_ok a"
  shows "bank_inv (s\<lparr>accounts := (accounts s)[account_count s := a],
                    account_count := account_count s + 1\<rparr>)"
proof -
  have "\<forall>b \<in> set ((accounts s)[account_count s := a]). acct_ok b"
    using inv a(3) set_update_subset_insert[of "accounts s" "account_count s" a]
    by (auto simp: bank_inv_def)
  then show ?thesis
    using pix_inv_new_account[OF _ room a(1,2)] inv by (simp add: bank_inv_def)
qed

lemma sign_up_state:
  "snd (sign_up s uline pline aline) = s
   \<or> (account_count s < MAX_ACCOUNTS
      \<and> snd (sign_up s uline pline aline) =
          s\<lparr>accounts := (accounts s)[account_count s :=
                 fresh_account (readln uline MAX_NAME_LEN) (readln pline MAX_PASS_LEN)
                   (readln aline MAX_AGENCY_LEN)],
            account_count := account_count s + 1\<rparr>)"
  by (simp add: sign_up_def Let_def fresh_account_def)

lemma bank_inv_sign_up:
  assumes "bank_inv s"
  shows "bank_inv (snd (sign_up s uline pline aline))"
proof -
  let ?a = "fresh_account (readln uline MAX_NAME_LEN) (readln pline MAX_PASS_LEN)
              (readln aline MAX_AGENCY_LEN)"
  have a: "used ?a" "pix_key ?a = []" "acct_ok ?a"
    using acct_ok_fresh by (simp_all add: fresh_account_def zero_account_def)
  from sign_up_state[of s uline pline aline] show ?thesis
  proof
    assume "snd (sign_up s uline pline aline) = s"
    then show ?thesis using assms by simp
  next
    assume "account_count s < MAX_ACCOUNTS
      \<and> snd (sign_up s uline pline aline) =
          s\<lparr>accounts := (accounts s)[account_count s := ?a], account_count := account_count s + 1\<rparr>"
    then show ?thesis using bank_inv_new_account[OF assms _ a] by simp
  qed
qed

lemma bank_inv_main_step:
  assumes "bank_inv s"
  shows "\<exists>r. main_step s e = Some r \<and> bank_inv r"
proof (cases e)
  case (Register uline pline aline)
  then show ?thesis using bank_inv_sign_up[OF assms] by simp
next
  case (Login uline pline xs)
  then show ?thesis using bank_inv_log_in[OF assms, of uline pline xs] by auto
qed

lemma pix_slot_user1: "pix_slot ''user1pix'' = 520"
  by (simp add: pix_slot_def fnv1a_hash_def)

lemma pix_slot_user2: "pix_slot ''user2pix'' = 1051"
  by (simp add: pix_slot_def fnv1a_hash_def)

lemma main_init_eq: "main_init = Some sample_bank"
proof -
  let ?s1 = "bank0\<lparr>pix_table := replicate PIX_TABLE_SIZE 0,
      accounts := (replicate MAX_ACCOUNTS zero_account)[0 := sample_account ''user1'' ''user1pix''],
      account_count := 1\<rparr>"
  have k1: "pix_key (accounts ?s1 ! 0) = ''user1pix''"
    by (simp add: sample_account_def safe_strcpy_def MAX_PIX_LEN_def MAX_ACCOUNTS_def)
  have i1: "pix_insert ?s1 ''user1pix'' 0 = Some (?s1\<lparr>pix_table := (replicate PIX_TABLE_SIZE 0)[520 := 1]\<rparr>)"
    unfolding pix_insert_def
    by (subst pix_insert_loop.simps) (simp add: pix_slot_user1 PIX_TABLE_SIZE_def)
  let ?s2 = "?s1\<lparr>pix_table := (replicate PIX_TABLE_SIZE 0)[520 := 1]\<rparr>"
  let ?s3 = "?s2\<lparr>accounts := sample_accounts, account_count := 2\<rparr>"
  have k2: "pix_key (accounts ?s3 ! 1) = ''user2pix''"
    by (simp add: sample_accounts_def sample_account_def safe_strcpy_def MAX_PIX_LEN_def MAX_ACCOUNTS_def)
  have i2: "pix_insert ?s3 ''user2pix'' 1 = Some (?s3\<lparr>pix_table := (replicate PIX_TABLE_SIZE 0)[520 := 1, 1051 := 2]\<rparr>)"
    unfolding pix_insert_def
    by (subst pix_insert_loop.simps) (simp add: pix_slot_user2 PIX_TABLE_SIZE_def)
  have "main_init = pix_insert ?s3 ''user2pix'' 1"
    unfolding main_init_def init_sample_accounts_def Let_def
    using k1 k2 i1
    by (simp add: bank0_def MAX_ACCOUNTS_def sample_accounts_def) (simp add: numeral_2_eq_2)
  then show ?thesis unfolding i2 by (simp add: sample_bank_def bank0_def)
qed

lemma sample_tb_nth:
  "p < PIX_TABLE_SIZE \<Longrightarrow>
   pix_table sample_bank ! p = (if p = 1051 then 2 else if p = 520 then 1 else 0)"
  by (simp add: sample_bank_def PIX_TABLE_SIZE_def nth_list_update)

lemma sample_vals: "vals sample_bank = {1, 2}"
proof -
  have len: "length (pix_table sample_bank) = PIX_TABLE_SIZE" by (simp add: sample_bank_def)
  have a: "pix_table sample_bank ! 520 = 1" and b: "pix_table sample_bank ! 1051 = 2"
    by (simp_all add: sample_tb_nth PIX_TABLE_SIZE_def)
  have c: "(520::nat) < PIX_TABLE_SIZE" and d: "(1051::nat) < PIX_TABLE_SIZE"
    by (simp_all add: PIX_TABLE_SIZE_def)
  have one: "1 \<in> vals sample_bank"
    unfolding vals_def len using a c by (intro CollectI conjI exI[of _ 520]) simp_all
  have two: "2 \<in> vals sample_bank"
    unfolding vals_def len using b d by (intro CollectI conjI exI[of _ 1051]) simp_all
  have "v \<in> {1, 2}" if "v \<in> vals sample_bank" for v
    using that unfolding vals_def len by (auto simp: sample_tb_nth split: if_splits)
  then show ?thesis using one two by blast
qed

lemma sample_accounts_nth:
  "sample_accounts ! 0 = sample_account ''user1'' ''user1pix''"
  "sample_accounts ! 1 = sample_account ''user2'' ''user2pix''"
  "sample_accounts ! Suc 0 = sample_account ''user2'' ''user2pix''"
  "length sample_accounts = MAX_ACCOUNTS"
  by (simp_all add: sample_accounts_def MAX_ACCOUNTS_def)

lemma sample_account_sel [simp]:
  "pix_key (sample_account ''user1'' ''user1pix'') = ''user1pix''"
  "pix_key (sample_account ''user2'' ''user2pix'') = ''user2pix''"
  "used (sample_account n k)"
  "username (sample_account ''user1'' k) = ''user1''"
  "username (sample_account ''user2'' k) = ''user2''"
  "password (sample_account n k) = ''pass''"
  "balance (sample_account n k) = 0"
  "credit_used (sample_account n k) = 0"
  "credit_limit (sample_account n k) = 10000"
  "txlog (sample_account n k) = zero_txlog"
  by (simp_all add: sample_account_def safe_strcpy_def MAX_PIX_LEN_def MAX_NAME_LEN_def
      MAX_PASS_LEN_def zero_account_def)

lemma sample_table_inv: "table_inv sample_bank"
  unfolding table_inv_def
proof (intro conjI)
  show "length (pix_table sample_bank) = PIX_TABLE_SIZE" by (simp add: sample_bank_def)
  show "account_count sample_bank \<le> MAX_ACCOUNTS" by (simp add: sample_bank_def MAX_ACCOUNTS_def)
  show "\<forall>v \<in> vals sample_bank. val_valid sample_bank v"
    unfolding sample_vals
    by (simp add: val_valid_def sample_bank_def sample_accounts_nth)
  show "\<forall>v \<in> vals sample_bank. \<forall>w \<in> vals sample_bank.
      key_of sample_bank v = key_of sample_bank w \<longrightarrow> v = w"
    unfolding sample_vals
    by (simp add: key_of_def sample_bank_def sample_accounts_nth)
  show "\<forall>p < PIX_TABLE_SIZE. \<forall>q < PIX_TABLE_SIZE.
      pix_table sample_bank ! p \<noteq> 0 \<and> pix_table sample_bank ! p = pix_table sample_bank ! q \<longrightarrow> p = q"
    by (auto simp: sample_tb_nth split: if_splits)
  show "\<forall>p < PIX_TABLE_SIZE. pix_table sample_bank ! p \<noteq> 0 \<longrightarrow> probe_ok sample_bank p"
  proof (intro allI impI)
    fix p assume p: "p < PIX_TABLE_SIZE" and occ: "pix_table sample_bank ! p \<noteq> 0"
    then have "p = 520 \<or> p = 1051" by (auto simp: sample_tb_nth split: if_splits)
    then show "probe_ok sample_bank p"
    proof
      assume "p = 520"
      then show ?thesis
        by (simp add: probe_ok_def sample_tb_nth PIX_TABLE_SIZE_def key_of_def fwd_def)
           (simp add: sample_bank_def sample_accounts_nth pix_slot_user1)
    next
      assume "p = 1051"
      then show ?thesis
        by (simp add: probe_ok_def sample_tb_nth PIX_TABLE_SIZE_def key_of_def fwd_def)
           (simp add: sample_bank_def sample_accounts_nth pix_slot_user2)
    qed
  qed
qed

lemma sample_bank_inv: "bank_inv sample_bank"
proof -
  have "pix_inv sample_bank"
    unfolding pix_inv_def sample_vals
    using sample_table_inv
    by (auto simp: sample_bank_def sample_accounts_nth less_Suc_eq numeral_2_eq_2)
  moreover have "\<forall>a \<in> set (accounts sample_bank). acct_ok a"
  proof
    fix a assume "a \<in> set (accounts sample_bank)"
    then have "a \<in> set sample_accounts" by (simp add: sample_bank_def)
    moreover have "set sample_accounts \<subseteq>
        insert (sample_account ''user2'' ''user2pix'')
          (insert (sample_account ''user1'' ''user1pix'') (set (replicate MAX_ACCOUNTS zero_account)))"
      unfolding sample_accounts_def
      using set_update_subset_insert[of "(replicate MAX_ACCOUNTS zero_account)[0 := sample_account ''user1'' ''user1pix'']" 1]
        set_update_subset_insert[of "replicate MAX_ACCOUNTS zero_account" 0]
      by blast
    ultimately have "a = sample_account ''user1'' ''user1pix'' \<or> a = sample_account ''user2'' ''user2pix''
        \<or> a = zero_account"
      by auto
    then show "acct_ok a" using acct_ok_sample acct_ok_zero by auto
  qed
  ultimately show ?thesis by (simp add: bank_inv_def)
qed

theorem reachable_bank_inv: "reachable s \<Longrightarrow> bank_inv s"
proof (induction rule: reachable.induct)
  case (reachable_init s)
  then show ?case using sample_bank_inv by (simp add: main_init_eq)
next
  case (reachable_step s e r)
  then show ?case using bank_inv_main_step[of s e] by auto
qed

lemma reachable_total: "reachable s \<Longrightarrow> \<exists>r. main_step s e = Some r \<and> reachable r"
  using bank_inv_main_step[of s e] reachable_bank_inv reachable.reachable_step by blast

section \<open>Reachable states: credit, removal, setting the key\<close>

lemma bank_inv_acct_ok:
  assumes "bank_inv s" "i < account_count s"
  shows "i < length (accounts s) \<and> acct_ok (accounts s ! i)"
proof -
  have "length (accounts s) = MAX_ACCOUNTS" "account_count s \<le> MAX_ACCOUNTS"
    using assms(1) by (simp_all add: bank_inv_def pix_inv_def table_inv_def)
  then show ?thesis using assms by (simp add: bank_inv_def)
qed

text \<open>the three outcomes of a transfer\<close>

lemma transfer_shape:
  assumes inv: "bank_inv s" and i: "i < account_count s"
  shows "(\<exists>m. transfer s i amt key = Some (m, s))
     \<or> (pix_key (accounts s ! i) \<noteq> [] \<and> key = pix_key (accounts s ! i) \<and> 0 <s amt
         \<and> amt \<le>s credit_limit (accounts s ! i) - credit_used (accounts s ! i)
         \<and> (\<exists>m. transfer s i amt key = Some (m,
               upd_account s i (\<lambda>a. a\<lparr>credit_used := credit_used a + amt, balance := balance a + amt,
                 txlog := txlog_push (txlog a) TX_CREDIT_ADV amt (credit_note amt)\<rparr>))))
     \<or> (\<exists>t < account_count s. t \<noteq> i \<and> pix_key (accounts s ! i) \<noteq> [] \<and> key \<noteq> pix_key (accounts s ! i)
         \<and> 0 <s amt \<and> amt \<le>s balance (accounts s ! i) \<and> pix_find s key = Some (int t)
         \<and> pix_key (accounts s ! t) = key
         \<and> (\<exists>m. transfer s i amt key = Some (m,
               upd_account
                (upd_account s i (\<lambda>a. a\<lparr>balance := balance a - amt,
                    txlog := txlog_push (txlog a) TX_TRANSFER_OUT amt (note_out s t amt)\<rparr>))
                t (\<lambda>a. a\<lparr>balance := balance a + amt,
                    txlog := txlog_push (txlog a) TX_TRANSFER_IN amt (note_in s i amt)\<rparr>))))"
proof -
  have p: "pix_inv s" using inv by (simp add: bank_inv_def)
  have il: "i < length (accounts s)" using bank_inv_acct_ok[OF inv i] by simp
  show ?thesis
  proof (cases "pix_key (accounts s ! i) = []")
    case True
    then show ?thesis by (simp add: transfer_def)
  next
    case own: False
    show ?thesis
    proof (cases "amt \<le>s 0")
      case True
      then show ?thesis using own by (simp add: transfer_def)
    next
      case False
      then have pos: "0 <s amt" by (simp add: word_sle_eq word_sless_alt)
      show ?thesis
      proof (cases "key = pix_key (accounts s ! i)")
        case True
        then show ?thesis using own pos False by (simp add: transfer_own)
      next
        case other: False
        from pix_find_total[OF p, of key] show ?thesis
        proof
          assume "pix_find s key = Some (- 1)"
          then show ?thesis using own other False by (simp add: transfer_def)
        next
          assume "\<exists>t < account_count s. pix_find s key = Some (int t)
              \<and> pix_key (accounts s ! t) = key \<and> key \<noteq> []"
          then obtain t where t: "t < account_count s" "pix_find s key = Some (int t)"
            "pix_key (accounts s ! t) = key" by blast
          have ti: "t \<noteq> i" using t other by auto
          have tl: "t < length (accounts s)" using bank_inv_acct_ok[OF inv t(1)] by simp
          show ?thesis
          proof (cases "amt \<le>s balance (accounts s ! i)")
            case True
            then show ?thesis
              using transfer_other[OF own other pos t(2) ti il tl] t ti own other pos
              by auto
          next
            case False
            then show ?thesis
              using transfer_other[OF own other pos t(2) ti il tl] by simp
          qed
        qed
      qed
    qed
  qed
qed

text \<open>the outcomes of setting the PIX key\<close>

lemma menu_set_pix_shape:
  assumes inv: "bank_inv s" and i: "i < account_count s"
  shows "(\<exists>m. menu_set_pix s i line = Some (m, s))
     \<or> (\<exists>m r. menu_set_pix s i line = Some (m, r) \<and> account_count r = account_count s
          \<and> accounts r = (accounts s)[i := set_pix_account (accounts s ! i) (readln line MAX_PIX_LEN)])"
proof -
  let ?pix = "readln line MAX_PIX_LEN"
  have p: "pix_inv s" using inv by (simp add: bank_inv_def)
  show ?thesis
  proof (cases "?pix = []")
    case True
    then show ?thesis by (simp add: menu_set_pix_empty)
  next
    case ne: False
    show ?thesis
    proof (cases "\<exists>j < account_count s. j \<noteq> i \<and> pix_key (accounts s ! j) = ?pix")
      case True
      then obtain j where "j < account_count s" "j \<noteq> i" "pix_key (accounts s ! j) = ?pix" by blast
      from menu_set_pix_taken[OF p this ne] show ?thesis by simp
    next
      case False
      then have "\<forall>j < account_count s. j \<noteq> i \<longrightarrow> pix_key (accounts s ! j) \<noteq> ?pix" by blast
      from menu_set_pix_free[OF p i ne this] show ?thesis by blast
    qed
  qed
qed

text \<open>what a menu step runs\<close>

lemma menu_step_result:
  assumes "menu_step s i x = Some (out, r)"
  shows "case x of
      Op_Deposit line \<Rightarrow> r = s \<or> (\<exists>amt. read_cents_prompt line = Some amt \<and> r = snd (deposit s i amt))
    | Op_Withdraw line \<Rightarrow> r = s \<or> (\<exists>amt. read_cents_prompt line = Some amt \<and> r = snd (withdraw s i amt))
    | Op_Transfer pixline line \<Rightarrow>
        r = s \<or> (\<exists>amt m. read_cents_prompt line = Some amt
                    \<and> transfer s i amt (readln pixline MAX_PIX_LEN) = Some (m, r))
    | Op_Show_Info \<Rightarrow> r = s
    | Op_View_Tx \<Rightarrow> r = s
    | Op_Set_Pix line \<Rightarrow> (\<exists>m. menu_set_pix s i line = Some (m, r))
    | Op_Credit_Limit line \<Rightarrow>
        r = s \<or> (\<exists>nl. read_cents_prompt line = Some nl \<and> r = snd (change_credit_limit s i nl))
    | Op_Password oldline newline \<Rightarrow>
        r = snd (change_password s i (readln oldline MAX_PASS_LEN) (readln newline MAX_PASS_LEN))"
  using assms by (cases x) (auto split: option.splits prod.splits)

text \<open>no operation decreases \<open>credit_used\<close>\<close>

lemma transfer_credit_used:
  assumes inv: "bank_inv s" and i: "i < account_count s"
    and r: "transfer s i amt key = Some (m, r)"
  shows "sint (credit_used (accounts s ! j)) \<le> sint (credit_used (accounts r ! j))"
proof -
  have oki: "acct_ok (accounts s ! i)" using bank_inv_acct_ok[OF inv i] by simp
  from transfer_shape[OF inv i, of amt key] show ?thesis
  proof (elim disjE exE conjE)
    fix m' assume "transfer s i amt key = Some (m', s)"
    then show ?thesis using r by simp
  next
    fix m'
    assume a: "0 <s amt" "amt \<le>s credit_limit (accounts s ! i) - credit_used (accounts s ! i)"
      and t: "transfer s i amt key = Some (m',
             upd_account s i (\<lambda>a. a\<lparr>credit_used := credit_used a + amt, balance := balance a + amt,
               txlog := txlog_push (txlog a) TX_CREDIT_ADV amt (credit_note amt)\<rparr>))"
    have "sint (credit_used (accounts s ! i) + amt) = sint (credit_used (accounts s ! i)) + sint amt
        \<and> sint (credit_used (accounts s ! i)) + sint amt \<le> sint (credit_limit (accounts s ! i))"
      using oki a by (intro credit_advance_sint) (auto simp: acct_ok_def)
    moreover have "0 < sint amt" using a(1) by (simp add: word_sless_alt)
    ultimately show ?thesis using r t by (auto simp: nth_upd)
  next
    fix t m'
    assume "transfer s i amt key = Some (m',
             upd_account
              (upd_account s i (\<lambda>a. a\<lparr>balance := balance a - amt,
                  txlog := txlog_push (txlog a) TX_TRANSFER_OUT amt (note_out s t amt)\<rparr>))
              t (\<lambda>a. a\<lparr>balance := balance a + amt,
                  txlog := txlog_push (txlog a) TX_TRANSFER_IN amt (note_in s i amt)\<rparr>))"
    then show ?thesis using r by (auto simp: nth_upd)
  qed
qed

lemma menu_step_credit_used:
  assumes inv: "bank_inv s" and i: "i < account_count s"
    and step: "menu_step s i x = Some (out, r)"
  shows "sint (credit_used (accounts s ! j)) \<le> sint (credit_used (accounts r ! j))"
proof (cases x)
  case (Op_Deposit line)
  then show ?thesis using menu_step_result[OF step]
    by (auto simp: deposit_state nth_upd)
next
  case (Op_Withdraw line)
  then show ?thesis using menu_step_result[OF step]
    by (auto simp: withdraw_state nth_upd)
next
  case (Op_Transfer pixline line)
  then show ?thesis using menu_step_result[OF step] transfer_credit_used[OF inv i]
    by auto
next
  case Op_Show_Info
  then show ?thesis using step by simp
next
  case Op_View_Tx
  then show ?thesis using step by simp
next
  case (Op_Set_Pix line)
  then have r: "\<exists>m. menu_set_pix s i line = Some (m, r)" using step by auto
  from menu_set_pix_shape[OF inv i, of line] show ?thesis
    using r by (auto simp: nth_upd set_pix_account_def)
next
  case (Op_Credit_Limit line)
  then show ?thesis using menu_step_result[OF step]
    by (auto simp: change_credit_limit_state nth_upd)
next
  case (Op_Password oldline newline)
  then show ?thesis using menu_step_result[OF step]
    by (auto simp: change_password_state nth_upd)
qed

lemma account_menu_credit_used:
  assumes "bank_inv s" "i < account_count s" "account_menu s i xs = Some r"
  shows "sint (credit_used (accounts s ! j)) \<le> sint (credit_used (accounts r ! j))"
  using assms
proof (induction xs arbitrary: s)
  case Nil
  then show ?case by simp
next
  case (Cons x xs)
  from bank_inv_menu_step[OF Cons.prems(1,2), of x] obtain out s' where
    s': "menu_step s i x = Some (out, s')" "bank_inv s'" "account_count s' = account_count s"
    by blast
  have "sint (credit_used (accounts s ! j)) \<le> sint (credit_used (accounts s' ! j))"
    using menu_step_credit_used[OF Cons.prems(1,2) s'(1)] .
  moreover have "sint (credit_used (accounts s' ! j)) \<le> sint (credit_used (accounts r ! j))"
    using Cons.IH[OF s'(2)] Cons.prems s' by simp
  ultimately show ?case by simp
qed

lemma main_step_credit_used:
  assumes inv: "bank_inv s" and step: "main_step s e = Some r" and j: "j < account_count s"
  shows "sint (credit_used (accounts s ! j)) \<le> sint (credit_used (accounts r ! j))"
proof (cases e)
  case (Register uline pline aline)
  then have "r = snd (sign_up s uline pline aline)" using step by simp
  then show ?thesis using sign_up_state[of s uline pline aline] j by auto
next
  case (Login uline pline xs)
  let ?idx = "find_account_by_name s (readln uline MAX_NAME_LEN)"
  show ?thesis
  proof (cases "0 \<le> ?idx \<and> password (accounts s ! nat ?idx) = readln pline MAX_PASS_LEN")
    case True
    then have "account_menu s (nat ?idx) xs = Some r"
      using step Login by (simp add: log_in_def Let_def)
    moreover have "nat ?idx < account_count s" using True by (intro find_account_by_name_lt) simp
    ultimately show ?thesis using account_menu_credit_used[OF inv] by blast
  next
    case False
    then have "r = s" using step Login by (auto simp: log_in_def Let_def)
    then show ?thesis by simp
  qed
qed

text \<open>
  Claim C10. \<open>credit_used\<close> never decreases: for every reachable state \<open>s\<close>, every step
  \<open>s \<rightarrow> r\<close> of the main loop (a registration, or a session of menu operations) and every
  live account \<open>j\<close>, \<open>credit_used\<close> of \<open>j\<close> in \<open>r\<close> is at least its value in \<open>s\<close>.
\<close>

theorem credit_used_never_decreases:
  assumes "reachable s" and "main_step s e = Some r" and "j < account_count s"
  shows "sint (credit_used (accounts s ! j)) \<le> sint (credit_used (accounts r ! j))"
  using main_step_credit_used[OF reachable_bank_inv[OF assms(1)] assms(2,3)] .

text \<open>
  Claim C7. In every reachable state every live account has
  \<open>0 \<le> credit_used \<le> credit_limit\<close> (as signed 64-bit values), and \<open>change_credit_limit\<close>
  rejects, without a change of state, every new limit below the current \<open>credit_used\<close>,
  hence every negative one.
\<close>

theorem credit_used_within_limit:
  assumes "reachable s" and "i < account_count s"
  shows "0 \<le> sint (credit_used (accounts s ! i))
     \<and> sint (credit_used (accounts s ! i)) \<le> sint (credit_limit (accounts s ! i))
     \<and> (sint nl < sint (credit_used (accounts s ! i)) \<longrightarrow>
          change_credit_limit s i nl = (''New limit cannot be lower than current credit used.'', s))
     \<and> (sint nl < 0 \<longrightarrow>
          change_credit_limit s i nl = (''New limit cannot be lower than current credit used.'', s))"
proof -
  have "acct_ok (accounts s ! i)"
    using bank_inv_acct_ok[OF reachable_bank_inv[OF assms(1)] assms(2)] by simp
  then have ok: "0 \<le> sint (credit_used (accounts s ! i))"
    "sint (credit_used (accounts s ! i)) \<le> sint (credit_limit (accounts s ! i))"
    by (simp_all add: acct_ok_def word_sle_eq)
  have "change_credit_limit s i nl = (''New limit cannot be lower than current credit used.'', s)"
    if "sint nl < sint (credit_used (accounts s ! i))"
    using that by (simp add: change_credit_limit_def word_sle_eq)
  then show ?thesis using ok by auto
qed

lemma pix_remove_correct:
  assumes t: "table_inv s" and f: "pix_find s a = Some h" and h: "0 \<le> h"
  shows "\<exists>r x. x < PIX_TABLE_SIZE \<and> pix_table s ! x = h + 1
     \<and> pix_remove s a = pix_rehash_loop (s\<lparr>pix_table := (pix_table s)[x := 0]\<rparr>) (next_slot x)
     \<and> pix_remove s a = Some r \<and> table_inv r \<and> accounts r = accounts s
     \<and> account_count r = account_count s \<and> vals r = vals s - {h + 1}
     \<and> pix_find r a = Some (- 1)
     \<and> (\<forall>b hb. b \<noteq> a \<and> pix_find s b = Some hb \<and> 0 \<le> hb \<longrightarrow> pix_find r b = Some hb)"
proof -
  from find_result[OF f h] obtain x where
    x: "x < PIX_TABLE_SIZE" "pix_table s ! x = h + 1" "val_valid s (h + 1)" "key_of s (h + 1) = a"
    by blast
  have occ: "pix_table s ! x \<noteq> 0" using x h by simp
  have kx: "key_of s (pix_table s ! x) = a" using x by simp
  from remove_present[OF t x(1) occ kx] obtain r where
    r: "pix_remove s a = Some r" "table_inv r" "accounts r = accounts s"
    "account_count r = account_count s" "vals r = vals s - {pix_table s ! x}"
    "pix_remove s a = pix_rehash_loop (s\<lparr>pix_table := (pix_table s)[x := 0]\<rparr>) (next_slot x)"
    by blast
  have len: "length (pix_table s) = PIX_TABLE_SIZE" using t by (simp add: table_inv_def)
  have lenr: "length (pix_table r) = PIX_TABLE_SIZE" using r(2) by (simp add: table_inv_def)
  have keyinj: "\<forall>v \<in> vals s. \<forall>w \<in> vals s. key_of s v = key_of s w \<longrightarrow> v = w"
    using t by (simp add: table_inv_def)
  have kr: "key_of r v = key_of s v" for v using r(3) by (simp add: key_of_def)
  have hin: "h + 1 \<in> vals s" using x occ len vals_nth[of x s] by simp
  have gone: "\<forall>v \<in> vals r. key_of r v \<noteq> a"
  proof
    fix v assume v: "v \<in> vals r"
    then have "v \<in> vals s" "v \<noteq> h + 1" using r(5) x by auto
    then show "key_of r v \<noteq> a" using keyinj hin x(4) kr by metis
  qed
  have fa: "pix_find r a = Some (- 1)" using r(2) gone by (rule find_absent)
  have others: "pix_find r b = Some hb" if b: "b \<noteq> a" "pix_find s b = Some hb" "0 \<le> hb" for b hb
  proof -
    from find_result[OF b(2,3)] obtain y where
      y: "y < PIX_TABLE_SIZE" "pix_table s ! y = hb + 1" "key_of s (hb + 1) = b"
      by blast
    have "hb + 1 \<noteq> h + 1" using y(3) x(4) b(1) by auto
    moreover have "hb + 1 \<in> vals s" using y b(3) len vals_nth[of y s] by simp
    ultimately have "hb + 1 \<in> vals r" using r(5) x by simp
    then obtain z where z: "z < PIX_TABLE_SIZE" "pix_table r ! z = hb + 1"
      using lenr by (auto simp: vals_def)
    have "pix_find r b = Some (pix_table r ! z - 1)"
      using r(2) z b(3) y(3) kr by (intro find_present) auto
    then show ?thesis using z by simp
  qed
  show ?thesis using x r fa others by auto
qed

lemma reachable_table_inv: "reachable s \<Longrightarrow> table_inv s"
  using reachable_bank_inv by (simp add: bank_inv_def pix_inv_def)

text \<open>
  Claim C1. In every reachable state, for every alias \<open>a\<close> that the index finds,
  \<open>pix_remove a\<close> returns; it clears the matched slot \<open>x\<close> and runs the clear-and-reinsert loop
  \<open>pix_rehash_loop\<close> over the occupied run that starts at the next slot (the loop stops at the
  first empty slot); afterwards \<open>a\<close> is not found, and every other alias that was found
  before is found with the same account index, whatever slots its probe passes.
\<close>

theorem pix_remove_keeps_other_aliases:
  assumes "reachable s" and "pix_find s a = Some h" and "0 \<le> h"
  shows "\<exists>r x. x < PIX_TABLE_SIZE \<and> pix_table s ! x = h + 1
     \<and> pix_remove s a = pix_rehash_loop (s\<lparr>pix_table := (pix_table s)[x := 0]\<rparr>) (next_slot x)
     \<and> pix_remove s a = Some r
     \<and> pix_find r a = Some (- 1)
     \<and> (\<forall>b hb. b \<noteq> a \<and> pix_find s b = Some hb \<and> 0 \<le> hb \<longrightarrow> pix_find r b = Some hb)"
  using pix_remove_correct[OF reachable_table_inv[OF assms(1)] assms(2,3)] by blast

lemma pix_find_same_keys:
  assumes "pix_inv s" "pix_inv r" "account_count r = account_count s"
    and "\<forall>j < account_count s. pix_key (accounts r ! j) = pix_key (accounts s ! j)"
  shows "pix_find r k = pix_find s k"
proof (cases "k = []")
  case True
  then show ?thesis by (simp add: pix_find_def)
next
  case ne: False
  show ?thesis
  proof (cases "\<exists>i < account_count s. pix_key (accounts s ! i) = k")
    case True
    then obtain i where i: "i < account_count s" "pix_key (accounts s ! i) = k" by blast
    have "pix_find s k = Some (int i)" using assms(1) i ne by (rule find_account_key)
    moreover have "pix_find r k = Some (int i)"
      using assms i ne by (intro find_account_key) auto
    ultimately show ?thesis by simp
  next
    case False
    then have "pix_find s k = Some (- 1)" using assms(1) by (intro find_no_key) auto
    moreover have "pix_find r k = Some (- 1)" using assms False by (intro find_no_key) auto
    ultimately show ?thesis by simp
  qed
qed

text \<open>
  Claim C8. In every reachable state, for a logged-in account \<open>i\<close>: typing an alias that the
  index finds at a different account fails and leaves the whole state (alias fields and index)
  as it is; typing the alias the account already holds succeeds, leaves every account's
  alias field as it is, and afterwards every lookup returns what it returned before.
\<close>

theorem set_pix_conflict_and_idempotence:
  assumes "reachable s" and "i < account_count s"
  shows "(\<forall>h. pix_find s (readln line MAX_PIX_LEN) = Some h \<and> 0 \<le> h \<and> h \<noteq> int i \<longrightarrow>
            menu_set_pix s i line = Some (''This PIX key is already registered.'', s))
     \<and> (readln line MAX_PIX_LEN = pix_key (accounts s ! i) \<and> pix_key (accounts s ! i) \<noteq> [] \<longrightarrow>
          (\<exists>r. menu_set_pix s i line = Some (''PIX key updated successfully.'', r)
              \<and> map pix_key (accounts r) = map pix_key (accounts s)
              \<and> pix_find r (pix_key (accounts s ! i)) = Some (int i)
              \<and> (\<forall>k. pix_find r k = pix_find s k)))"
proof (intro conjI allI impI)
  fix h
  assume a: "pix_find s (readln line MAX_PIX_LEN) = Some h \<and> 0 \<le> h \<and> h \<noteq> int i"
  then have "readln line MAX_PIX_LEN \<noteq> []" by (auto simp: pix_find_def)
  then show "menu_set_pix s i line = Some (''This PIX key is already registered.'', s)"
    using a by (simp add: menu_set_pix_def Let_def)
next
  let ?pix = "readln line MAX_PIX_LEN"
  assume a: "?pix = pix_key (accounts s ! i) \<and> pix_key (accounts s ! i) \<noteq> []"
  have inv: "bank_inv s" using assms(1) by (rule reachable_bank_inv)
  then have p: "pix_inv s" by (simp add: bank_inv_def)
  have il: "i < length (accounts s)" using bank_inv_acct_ok[OF inv assms(2)] by simp
  have free: "\<forall>j < account_count s. j \<noteq> i \<longrightarrow> pix_key (accounts s ! j) \<noteq> ?pix"
    using account_keys_distinct[OF p assms(2)] a by metis
  from menu_set_pix_free[OF p assms(2) _ free] a obtain r where
    r: "menu_set_pix s i line = Some (''PIX key updated successfully.'', r)" "pix_inv r"
    "account_count r = account_count s"
    "accounts r = (accounts s)[i := set_pix_account (accounts s ! i) ?pix]"
    by auto
  have keys: "pix_key (accounts r ! j) = pix_key (accounts s ! j)" for j
    using a by (simp add: r(4) nth_upd set_pix_account_def)
  have m: "map pix_key (accounts r) = map pix_key (accounts s)"
    using keys by (intro nth_equalityI) (simp_all add: r(4))
  have same: "pix_find r k = pix_find s k" for k
    using pix_find_same_keys[OF p r(2,3)] keys by simp
  have "pix_find s (pix_key (accounts s ! i)) = Some (int i)"
    using p assms(2) a by (intro find_account_key) auto
  then show "\<exists>r. menu_set_pix s i line = Some (''PIX key updated successfully.'', r)
              \<and> map pix_key (accounts r) = map pix_key (accounts s)
              \<and> pix_find r (pix_key (accounts s ! i)) = Some (int i)
              \<and> (\<forall>k. pix_find r k = pix_find s k)"
    using r(1) m same by auto
qed

lemma sample_bank_sel [simp]:
  "accounts sample_bank = sample_accounts" "account_count sample_bank = 2"
  by (simp_all add: sample_bank_def)

lemma reachable_sample: "reachable sample_bank"
  by (rule reachable_init) (rule main_init_eq)

lemma find_account_by_name_at:
  assumes "i < account_count s" "used (accounts s ! i)" "username (accounts s ! i) = n"
    and "\<forall>j < i. username (accounts s ! j) \<noteq> n"
  shows "find_account_by_name s n = int i"
proof -
  have "List.find (\<lambda>i. used (accounts s ! i) \<and> username (accounts s ! i) = n) [0 ..< account_count s]
      = Some i"
    unfolding find_Some_iff using assms by (intro exI[of _ i]) auto
  then show ?thesis by (simp add: find_account_by_name_def)
qed

lemma find_account_by_name_none:
  assumes "\<forall>j < account_count s. username (accounts s ! j) \<noteq> n"
  shows "find_account_by_name s n = - 1"
proof -
  have "List.find (\<lambda>i. used (accounts s ! i) \<and> username (accounts s ! i) = n) [0 ..< account_count s]
      = None"
    unfolding find_None_iff using assms by auto
  then show ?thesis by (simp add: find_account_by_name_def)
qed

lemma login_set_pix_free:
  assumes inv: "bank_inv s" and i: "i < account_count s"
    and name: "find_account_by_name s (readln uline MAX_NAME_LEN) = int i"
    and pw: "password (accounts s ! i) = readln pline MAX_PASS_LEN"
    and ne: "readln line MAX_PIX_LEN \<noteq> []"
    and free: "\<forall>j < account_count s. j \<noteq> i \<longrightarrow> pix_key (accounts s ! j) \<noteq> readln line MAX_PIX_LEN"
  shows "\<exists>r. main_step s (Login uline pline [Op_Set_Pix line]) = Some r \<and> bank_inv r
     \<and> account_count r = account_count s
     \<and> accounts r = (accounts s)[i := set_pix_account (accounts s ! i) (readln line MAX_PIX_LEN)]"
proof -
  have p: "pix_inv s" using inv by (simp add: bank_inv_def)
  from menu_set_pix_free[OF p i ne free] obtain r where
    r: "menu_set_pix s i line = Some (''PIX key updated successfully.'', r)"
    "account_count r = account_count s"
    "accounts r = (accounts s)[i := set_pix_account (accounts s ! i) (readln line MAX_PIX_LEN)]"
    by blast
  have step: "main_step s (Login uline pline [Op_Set_Pix line]) = Some r"
    using name pw r(1) by (simp add: log_in_def Let_def)
  moreover have "bank_inv r" using bank_inv_main_step[OF inv, of "Login uline pline [Op_Set_Pix line]"] step by simp
  ultimately show ?thesis using r by blast
qed

lemma main_run_reachable:
  "reachable s \<Longrightarrow> main_run s evs = Some r \<Longrightarrow> reachable r"
proof (induction evs arbitrary: s)
  case Nil
  then show ?case by simp
next
  case (Cons e evs)
  then obtain s' where s': "main_step s e = Some s'" "main_run s' evs = Some r"
    by (auto split: option.splits)
  then show ?case using Cons.IH[of s'] Cons.prems(1) reachable_step by blast
qed

lemma cluster_slots:
  "pix_slot ''bobpix'' = 1167" "pix_slot ''iara1'' = 1167" "pix_slot ''nina2'' = 1167"
  by (simp_all add: pix_slot_def fnv1a_hash_def)

lemma rd [simp]:
  "readln ''user1'' MAX_NAME_LEN = ''user1''" "readln ''user2'' MAX_NAME_LEN = ''user2''"
  "readln ''user3'' MAX_NAME_LEN = ''user3''"
  "readln ''pass'' MAX_PASS_LEN = ''pass''" "readln ''pw'' MAX_PASS_LEN = ''pw''"
  "readln ''DF'' MAX_AGENCY_LEN = ''DF''"
  "readln ''bobpix'' MAX_PIX_LEN = ''bobpix''" "readln ''iara1'' MAX_PIX_LEN = ''iara1''"
  "readln ''nina2'' MAX_PIX_LEN = ''nina2''"
  "readln ''user1pix'' MAX_PIX_LEN = ''user1pix''" "readln ''user2pix'' MAX_PIX_LEN = ''user2pix''"
  by (simp_all add: readln_def MAX_NAME_LEN_def MAX_PASS_LEN_def MAX_AGENCY_LEN_def MAX_PIX_LEN_def)

lemma cluster_run:
  "\<exists>s. main_run sample_bank cluster_events = Some s \<and> bank_inv s \<and> account_count s = 3
     \<and> pix_key (accounts s ! 0) = ''bobpix'' \<and> pix_key (accounts s ! 1) = ''iara1''
     \<and> pix_key (accounts s ! 2) = ''nina2''"
proof -
  have la: "length sample_accounts = MAX_ACCOUNTS" by (simp add: sample_accounts_nth)
  have M: "2 < MAX_ACCOUNTS" by (simp add: MAX_ACCOUNTS_def)
  \<comment> \<open>first session\<close>
  have "find_account_by_name sample_bank ''user1'' = int 0"
    by (rule find_account_by_name_at) (simp_all add: sample_accounts_nth)
  from login_set_pix_free[OF sample_bank_inv, of 0 "''user1''" "''pass''" "''bobpix''"] this
  obtain s1 where s1: "main_step sample_bank (Login ''user1'' ''pass'' [Op_Set_Pix ''bobpix'']) = Some s1"
    "bank_inv s1" "account_count s1 = 2"
    "accounts s1 = sample_accounts[0 := set_pix_account (sample_accounts ! 0) ''bobpix'']"
    by (auto simp: sample_accounts_nth less_Suc_eq numeral_2_eq_2)
  have a1: "pix_key (accounts s1 ! 0) = ''bobpix''" "pix_key (accounts s1 ! Suc 0) = ''user2pix''"
    "username (accounts s1 ! 0) = ''user1''" "username (accounts s1 ! Suc 0) = ''user2''"
    "password (accounts s1 ! Suc 0) = ''pass''" "used (accounts s1 ! Suc 0)"
    using la M by (simp_all add: s1(4) sample_accounts_nth set_pix_account_def)
  \<comment> \<open>second session\<close>
  have "find_account_by_name s1 ''user2'' = int 1"
    by (rule find_account_by_name_at) (simp_all add: s1(3) a1)
  from login_set_pix_free[OF s1(2), of 1 "''user2''" "''pass''" "''iara1''"] this
  obtain s2 where s2: "main_step s1 (Login ''user2'' ''pass'' [Op_Set_Pix ''iara1'']) = Some s2"
    "bank_inv s2" "account_count s2 = 2"
    "accounts s2 = (accounts s1)[1 := set_pix_account (accounts s1 ! 1) ''iara1'']"
    by (auto simp: s1(3) a1 less_Suc_eq numeral_2_eq_2)
  have l1: "length (accounts s1) = MAX_ACCOUNTS" by (simp add: s1(4) la)
  have a2: "pix_key (accounts s2 ! 0) = ''bobpix''" "pix_key (accounts s2 ! Suc 0) = ''iara1''"
    "username (accounts s2 ! 0) = ''user1''" "username (accounts s2 ! Suc 0) = ''user2''"
    using l1 M by (simp_all add: s2(4) a1 set_pix_account_def)
  \<comment> \<open>registration\<close>
  have none: "find_account_by_name s2 ''user3'' = - 1"
    by (rule find_account_by_name_none) (auto simp: s2(3) a2 less_Suc_eq numeral_2_eq_2)
  define s3 where "s3 = s2\<lparr>accounts := (accounts s2)[2 := fresh_account ''user3'' ''pw'' ''DF''],
      account_count := 3\<rparr>"
  have s3: "main_step s2 (Register ''user3'' ''pw'' ''DF'') = Some s3"
    using none M by (simp add: sign_up_def Let_def s2(3) s3_def fresh_account_def)
  have inv3: "bank_inv s3" using bank_inv_main_step[OF s2(2), of "Register ''user3'' ''pw'' ''DF''"] s3 by simp
  have l2: "length (accounts s2) = MAX_ACCOUNTS" by (simp add: s2(4) l1)
  have a3: "pix_key (accounts s3 ! 0) = ''bobpix''" "pix_key (accounts s3 ! Suc 0) = ''iara1''"
    "username (accounts s3 ! 0) = ''user1''" "username (accounts s3 ! Suc 0) = ''user2''"
    "username (accounts s3 ! 2) = ''user3''" "password (accounts s3 ! 2) = ''pw''"
    "used (accounts s3 ! 2)" "account_count s3 = 3"
    using l2 M
    by (simp_all add: s3_def a2 fresh_account_def safe_strcpy_def MAX_NAME_LEN_def MAX_PASS_LEN_def)
  \<comment> \<open>third session\<close>
  have "find_account_by_name s3 ''user3'' = int 2"
    by (rule find_account_by_name_at) (auto simp: a3 dest!: less_2_cases)
  from login_set_pix_free[OF inv3, of 2 "''user3''" "''pw''" "''nina2''"] this
  obtain s4 where s4: "main_step s3 (Login ''user3'' ''pw'' [Op_Set_Pix ''nina2'']) = Some s4"
    "bank_inv s4" "account_count s4 = 3"
    "accounts s4 = (accounts s3)[2 := set_pix_account (accounts s3 ! 2) ''nina2'']"
    by (auto simp: a3 less_Suc_eq numeral_3_eq_3)
  have l3: "length (accounts s3) = MAX_ACCOUNTS" by (simp add: s3_def l2)
  have a4: "pix_key (accounts s4 ! 0) = ''bobpix''" "pix_key (accounts s4 ! Suc 0) = ''iara1''"
    "pix_key (accounts s4 ! 2) = ''nina2''"
    using l3 M by (simp_all add: s4(4) a3 set_pix_account_def)
  have "main_run sample_bank cluster_events = Some s4"
    using s1(1) s2(1) s3 s4(1) by (simp add: cluster_events_def)
  then have "main_run sample_bank cluster_events = Some s4 \<and> bank_inv s4 \<and> account_count s4 = 3
     \<and> pix_key (accounts s4 ! 0) = ''bobpix'' \<and> pix_key (accounts s4 ! 1) = ''iara1''
     \<and> pix_key (accounts s4 ! 2) = ''nina2''"
    using s4(2,3) a4 by simp
  then show ?thesis by (rule exI[of _ s4])
qed

theorem pix_remove_cluster_witness:
  "pix_slot ''bobpix'' = pix_slot ''iara1'' \<and> pix_slot ''iara1'' = pix_slot ''nina2''
   \<and> (\<exists>s r. Option.bind main_init (\<lambda>s0. main_run s0 cluster_events) = Some s \<and> reachable s
          \<and> pix_find s ''bobpix'' = Some 0 \<and> pix_find s ''iara1'' = Some 1
          \<and> pix_find s ''nina2'' = Some 2
          \<and> pix_remove s ''iara1'' = Some r
          \<and> pix_find r ''iara1'' = Some (- 1)
          \<and> pix_find r ''bobpix'' = Some 0 \<and> pix_find r ''nina2'' = Some 2)"
proof -
  from cluster_run obtain s where
    s: "main_run sample_bank cluster_events = Some s" "bank_inv s" "account_count s = 3"
    "pix_key (accounts s ! 0) = ''bobpix''" "pix_key (accounts s ! 1) = ''iara1''"
    "pix_key (accounts s ! 2) = ''nina2''"
    by blast
  have reach: "reachable s" using main_run_reachable[OF reachable_sample s(1)] .
  have p: "pix_inv s" using s(2) by (simp add: bank_inv_def)
  have fa: "pix_find s ''bobpix'' = Some (int 0)"
    using p s by (intro find_account_key) auto
  have fb: "pix_find s ''iara1'' = Some (int 1)"
    using p s by (intro find_account_key) auto
  have fc: "pix_find s ''nina2'' = Some (int 2)"
    using p s by (intro find_account_key) auto
  from pix_remove_keeps_other_aliases[OF reach fb] obtain r where
    r: "pix_remove s ''iara1'' = Some r" "pix_find r ''iara1'' = Some (- 1)"
    "\<forall>b hb. b \<noteq> ''iara1'' \<and> pix_find s b = Some hb \<and> 0 \<le> hb \<longrightarrow> pix_find r b = Some hb"
    by auto
  have ra: "pix_find r ''bobpix'' = Some 0" using r(3) fa by auto
  have rc: "pix_find r ''nina2'' = Some 2" using r(3) fc by auto
  have run: "Option.bind main_init (\<lambda>s0. main_run s0 cluster_events) = Some s"
    using s(1) by (simp add: main_init_eq)
  have "Option.bind main_init (\<lambda>s0. main_run s0 cluster_events) = Some s \<and> reachable s
          \<and> pix_find s ''bobpix'' = Some 0 \<and> pix_find s ''iara1'' = Some 1
          \<and> pix_find s ''nina2'' = Some 2
          \<and> pix_remove s ''iara1'' = Some r
          \<and> pix_find r ''iara1'' = Some (- 1)
          \<and> pix_find r ''bobpix'' = Some 0 \<and> pix_find r ''nina2'' = Some 2"
    using run reach fa fb fc r(1,2) ra rc by simp
  then have "\<exists>s r. Option.bind main_init (\<lambda>s0. main_run s0 cluster_events) = Some s \<and> reachable s
          \<and> pix_find s ''bobpix'' = Some 0 \<and> pix_find s ''iara1'' = Some 1
          \<and> pix_find s ''nina2'' = Some 2
          \<and> pix_remove s ''iara1'' = Some r
          \<and> pix_find r ''iara1'' = Some (- 1)
          \<and> pix_find r ''bobpix'' = Some 0 \<and> pix_find r ''nina2'' = Some 2"
    by blast
  then show ?thesis by (simp add: cluster_slots)
qed

lemma parse_50: "read_cents_prompt ''50'' = Some 5000"
  by (simp add: read_cents_prompt_def readln_def parse_money_to_cents_def is_digit_def
      digit_val_def word_sless_alt c_isspace_def)

lemma find_user1_sample: "find_account_by_name sample_bank ''user1'' = 0"
  using find_account_by_name_at[of 0 sample_bank "''user1''"]
  by (simp add: sample_accounts_nth)

lemma advance_step:
  "main_step sample_bank (Login ''user1'' ''pass'' [Op_Transfer ''user1pix'' ''50'']) = Some advance_bank"
proof -
  have "transfer sample_bank 0 5000 ''user1pix'' =
      Some (''Added '' @ cents_str 5000 64 @ '' to balance using credit.'', advance_bank)"
    by (subst transfer_own)
       (simp_all add: sample_accounts_nth word_sle_eq advance_bank_def)
  then show ?thesis
    by (simp add: log_in_def Let_def find_user1_sample sample_accounts_nth parse_50)
qed

lemma reachable_advance: "reachable advance_bank"
  using reachable_step[OF reachable_sample advance_step] .

lemma advance_bank_account:
  "account_count advance_bank = 2"
  "credit_used (accounts advance_bank ! 0) = 5000"
  "credit_limit (accounts advance_bank ! 0) = 10000"
  "balance (accounts advance_bank ! 0) = 5000"
  by (simp_all add: advance_bank_def sample_accounts_nth MAX_ACCOUNTS_def)

theorem credit_used_never_decreases_witness:
  "reachable sample_bank
   \<and> main_step sample_bank (Login ''user1'' ''pass'' [Op_Transfer ''user1pix'' ''50'']) = Some advance_bank
   \<and> (0::nat) < account_count sample_bank
   \<and> sint (credit_used (accounts sample_bank ! 0)) \<le> sint (credit_used (accounts advance_bank ! 0))
   \<and> sint (credit_used (accounts sample_bank ! 0)) = 0
   \<and> sint (credit_used (accounts advance_bank ! 0)) = 5000"
  using credit_used_never_decreases[OF reachable_sample advance_step, of 0] advance_step
  by (simp add: reachable_sample advance_bank_account sample_accounts_nth)

theorem credit_used_within_limit_witness:
  "reachable advance_bank \<and> (0::nat) < account_count advance_bank
   \<and> 0 \<le> sint (credit_used (accounts advance_bank ! 0))
   \<and> sint (credit_used (accounts advance_bank ! 0)) \<le> sint (credit_limit (accounts advance_bank ! 0))
   \<and> sint (credit_used (accounts advance_bank ! 0)) = 5000
   \<and> change_credit_limit advance_bank 0 4999
        = (''New limit cannot be lower than current credit used.'', advance_bank)
   \<and> change_credit_limit advance_bank 0 (- 1)
        = (''New limit cannot be lower than current credit used.'', advance_bank)"
  using credit_used_within_limit[OF reachable_advance, of 0 4999]
    credit_used_within_limit[OF reachable_advance, of 0 "- 1"]
  by (simp add: reachable_advance advance_bank_account)

lemma find_user2pix_sample: "pix_find sample_bank ''user2pix'' = Some 1"
  using find_account_key[of sample_bank 1 "''user2pix''"] sample_bank_inv
  by (simp add: bank_inv_def sample_accounts_nth)

theorem set_pix_conflict_and_idempotence_witness:
  "reachable sample_bank \<and> (0::nat) < account_count sample_bank
   \<and> pix_find sample_bank ''user2pix'' = Some 1
   \<and> menu_set_pix sample_bank 0 ''user2pix'' = Some (''This PIX key is already registered.'', sample_bank)
   \<and> pix_key (accounts sample_bank ! 0) = ''user1pix''
   \<and> (\<exists>r. menu_set_pix sample_bank 0 ''user1pix'' = Some (''PIX key updated successfully.'', r)
         \<and> map pix_key (accounts r) = map pix_key (accounts sample_bank)
         \<and> pix_find r ''user1pix'' = Some 0
         \<and> (\<forall>k. pix_find r k = pix_find sample_bank k))"
proof -
  have c: "(0::nat) < account_count sample_bank" by simp
  have a: "menu_set_pix sample_bank 0 ''user2pix'' = Some (''This PIX key is already registered.'', sample_bank)"
    using set_pix_conflict_and_idempotence[OF reachable_sample c, of "''user2pix''"] find_user2pix_sample
    by simp
  have b: "\<exists>r. menu_set_pix sample_bank 0 ''user1pix'' = Some (''PIX key updated successfully.'', r)
         \<and> map pix_key (accounts r) = map pix_key (accounts sample_bank)
         \<and> pix_find r ''user1pix'' = Some 0
         \<and> (\<forall>k. pix_find r k = pix_find sample_bank k)"
    using set_pix_conflict_and_idempotence[OF reachable_sample c, of "''user1pix''"]
    by (simp add: sample_accounts_nth)
  show ?thesis using reachable_sample find_user2pix_sample a b by (simp add: sample_accounts_nth)
qed

section \<open>Balances\<close>

lemma fit_reachable_reachable: "fit_reachable s \<Longrightarrow> reachable s"
  by (induction rule: fit_reachable.induct) (auto intro: reachable.intros)

lemma balances_ok_upd:
  assumes "balances_ok s" "0 \<le>s balance (accounts s ! i) \<Longrightarrow> 0 \<le>s balance (f (accounts s ! i))"
    and "i < account_count s"
  shows "balances_ok (upd_account s i f)"
  using assms by (auto simp: balances_ok_def nth_upd)

lemma sint_add_pos_fits:
  assumes "0 \<le>s (b :: cents_t)" "0 <s amt" "sint b + sint amt < 2 ^ 63"
  shows "sint (b + amt) = sint b + sint amt \<and> 0 \<le>s b + amt"
proof -
  have "0 \<le> sint b" "0 < sint amt" using assms by (simp_all add: word_sle_eq word_sless_alt)
  then have "sint (b + amt) = sint b + sint amt" using assms(3) by (intro sint_add_fit) auto
  then show ?thesis using \<open>0 \<le> sint b\<close> \<open>0 < sint amt\<close> by (simp add: word_sle_eq)
qed

lemma sint_sub_nonneg:
  assumes "0 <s (amt :: cents_t)" "amt \<le>s b"
  shows "sint (b - amt) = sint b - sint amt \<and> 0 \<le>s b - amt"
proof -
  have a: "0 \<le>s amt" using assms(1) by (simp add: word_sle_eq word_sless_alt)
  have "sint (b - amt) = sint b - sint amt" using a assms(2) by (rule sint_sub_le)
  then show ?thesis using assms(2) by (simp add: word_sle_eq)
qed

lemma transfer_balances:
  assumes inv: "bank_inv s" and ok: "balances_ok s" and i: "i < account_count s"
    and fits: "if key = pix_key (accounts s ! i) then credit_fits s i amt
               else (case pix_find s key of None \<Rightarrow> True | Some t \<Rightarrow> t < 0 \<or> credit_fits s (nat t) amt)"
    and r: "transfer s i amt key = Some (m, r)"
  shows "balances_ok r"
proof -
  have bi: "0 \<le>s balance (accounts s ! i)" using ok i by (simp add: balances_ok_def)
  from transfer_shape[OF inv i, of amt key] show ?thesis
  proof (elim disjE exE conjE)
    fix m' assume "transfer s i amt key = Some (m', s)"
    then show ?thesis using r ok by simp
  next
    fix m'
    assume a: "key = pix_key (accounts s ! i)" "0 <s amt"
      and t: "transfer s i amt key = Some (m',
             upd_account s i (\<lambda>a. a\<lparr>credit_used := credit_used a + amt, balance := balance a + amt,
               txlog := txlog_push (txlog a) TX_CREDIT_ADV amt (credit_note amt)\<rparr>))"
    have "credit_fits s i amt" using fits a by simp
    then have "0 \<le>s balance (accounts s ! i) + amt"
      using sint_add_pos_fits[OF bi a(2)] by (simp add: credit_fits_def)
    then have "balances_ok (upd_account s i (\<lambda>a. a\<lparr>credit_used := credit_used a + amt,
               balance := balance a + amt,
               txlog := txlog_push (txlog a) TX_CREDIT_ADV amt (credit_note amt)\<rparr>))"
      using ok i by (intro balances_ok_upd) auto
    then show ?thesis using r t by simp
  next
    fix t m'
    assume a: "t < account_count s" "t \<noteq> i" "key \<noteq> pix_key (accounts s ! i)" "0 <s amt"
      "amt \<le>s balance (accounts s ! i)" "pix_find s key = Some (int t)"
      and tr: "transfer s i amt key = Some (m',
             upd_account
              (upd_account s i (\<lambda>a. a\<lparr>balance := balance a - amt,
                  txlog := txlog_push (txlog a) TX_TRANSFER_OUT amt (note_out s t amt)\<rparr>))
              t (\<lambda>a. a\<lparr>balance := balance a + amt,
                  txlog := txlog_push (txlog a) TX_TRANSFER_IN amt (note_in s i amt)\<rparr>))"
    let ?s1 = "upd_account s i (\<lambda>a. a\<lparr>balance := balance a - amt,
                  txlog := txlog_push (txlog a) TX_TRANSFER_OUT amt (note_out s t amt)\<rparr>)"
    have "0 \<le>s balance (accounts s ! i) - amt" using sint_sub_nonneg[OF a(4,5)] by simp
    then have ok1: "balances_ok ?s1" using ok i by (intro balances_ok_upd) auto
    have bt: "balance (accounts ?s1 ! t) = balance (accounts s ! t)" using a(2) by (simp add: nth_upd)
    have t1: "t < account_count ?s1" using a(1) by simp
    have "credit_fits s t amt" using fits a(3,6) by simp
    moreover have "0 \<le>s balance (accounts s ! t)" using ok a(1) by (simp add: balances_ok_def)
    ultimately have "0 \<le>s balance (accounts s ! t) + amt"
      using sint_add_pos_fits[OF _ a(4)] by (simp add: credit_fits_def)
    then have "balances_ok (upd_account ?s1 t (\<lambda>a. a\<lparr>balance := balance a + amt,
                  txlog := txlog_push (txlog a) TX_TRANSFER_IN amt (note_in s i amt)\<rparr>))"
      using bt t1 by (intro balances_ok_upd[OF ok1]) simp_all
    then show ?thesis using r tr by simp
  qed
qed

lemma menu_step_balances:
  assumes inv: "bank_inv s" and ok: "balances_ok s" and i: "i < account_count s"
    and fits: "op_fits s i x" and step: "menu_step s i x = Some (out, r)"
  shows "balances_ok r"
proof (cases x)
  case (Op_Deposit line)
  have bi: "0 \<le>s balance (accounts s ! i)" using ok i by (simp add: balances_ok_def)
  from menu_step_result[OF step] Op_Deposit
  consider "r = s" | amt where "read_cents_prompt line = Some amt" "r = snd (deposit s i amt)"
    by auto
  then show ?thesis
  proof cases
    case 1
    then show ?thesis using ok by simp
  next
    case 2
    show ?thesis
    proof (cases "amt \<le>s 0")
      case True
      then show ?thesis using 2 ok by (simp add: deposit_state)
    next
      case False
      then have pos: "0 <s amt" by (simp add: word_sle_eq word_sless_alt)
      have "credit_fits s i amt" using fits Op_Deposit 2 by simp
      then have "0 \<le>s balance (accounts s ! i) + amt"
        using sint_add_pos_fits[OF bi pos] by (simp add: credit_fits_def)
      then have "balances_ok (upd_account s i (\<lambda>a. a\<lparr>balance := balance a + amt,
             txlog := txlog_push (txlog a) TX_DEPOSIT amt (deposit_note amt)\<rparr>))"
        using ok i by (intro balances_ok_upd) auto
      then show ?thesis using 2 False by (simp add: deposit_state)
    qed
  qed
next
  case (Op_Withdraw line)
  from menu_step_result[OF step] Op_Withdraw
  consider "r = s" | amt where "read_cents_prompt line = Some amt" "r = snd (withdraw s i amt)"
    by auto
  then show ?thesis
  proof cases
    case 1
    then show ?thesis using ok by simp
  next
    case 2
    show ?thesis
    proof (cases "amt \<le>s 0 \<or> \<not> amt \<le>s balance (accounts s ! i)")
      case True
      then show ?thesis using 2 ok by (simp add: withdraw_state)
    next
      case False
      then have pos: "0 <s amt" and le: "amt \<le>s balance (accounts s ! i)"
        by (simp_all add: word_sle_eq word_sless_alt)
      have "0 \<le>s balance (accounts s ! i) - amt" using sint_sub_nonneg[OF pos le] by simp
      then have "balances_ok (upd_account s i (\<lambda>a. a\<lparr>balance := balance a - amt,
             txlog := txlog_push (txlog a) TX_WITHDRAW amt (withdraw_note amt)\<rparr>))"
        using ok i by (intro balances_ok_upd) auto
      then show ?thesis using 2 False by (simp add: withdraw_state)
    qed
  qed
next
  case (Op_Transfer pixline line)
  from menu_step_result[OF step] Op_Transfer
  consider "r = s" | amt m where "read_cents_prompt line = Some amt"
    "transfer s i amt (readln pixline MAX_PIX_LEN) = Some (m, r)"
    by auto
  then show ?thesis
  proof cases
    case 1
    then show ?thesis using ok by simp
  next
    case 2
    show ?thesis
      using fits Op_Transfer 2(1)
      by (intro transfer_balances[OF inv ok i _ 2(2)]) simp
  qed
next
  case Op_Show_Info
  then show ?thesis using step ok by simp
next
  case Op_View_Tx
  then show ?thesis using step ok by simp
next
  case (Op_Set_Pix line)
  then have r: "\<exists>m. menu_set_pix s i line = Some (m, r)" using step by auto
  from menu_set_pix_shape[OF inv i, of line] show ?thesis
    using r ok by (auto simp: balances_ok_def nth_upd set_pix_account_def)
next
  case (Op_Credit_Limit line)
  then show ?thesis using menu_step_result[OF step] ok
    by (auto simp: change_credit_limit_state balances_ok_def nth_upd)
next
  case (Op_Password oldline newline)
  then show ?thesis using menu_step_result[OF step] ok
    by (auto simp: change_password_state balances_ok_def nth_upd)
qed

lemma account_menu_balances:
  assumes "bank_inv s" "balances_ok s" "i < account_count s" "ops_fit s i xs"
    "account_menu s i xs = Some r"
  shows "balances_ok r"
  using assms
proof (induction xs arbitrary: s)
  case Nil
  then show ?case by simp
next
  case (Cons x xs)
  from bank_inv_menu_step[OF Cons.prems(1,3), of x] obtain out s' where
    s': "menu_step s i x = Some (out, s')" "bank_inv s'" "account_count s' = account_count s"
    by blast
  have "balances_ok s'"
    using menu_step_balances[OF Cons.prems(1,2,3) _ s'(1)] Cons.prems(4) by simp
  then show ?case using Cons.IH[OF s'(2)] Cons.prems s' by simp
qed

lemma main_step_balances:
  assumes inv: "bank_inv s" and ok: "balances_ok s" and fits: "event_fits s e"
    and step: "main_step s e = Some r"
  shows "balances_ok r"
proof (cases e)
  case (Register uline pline aline)
  then have r: "r = snd (sign_up s uline pline aline)" using step by simp
  from sign_up_state[of s uline pline aline] show ?thesis
  proof
    assume "snd (sign_up s uline pline aline) = s"
    then show ?thesis using r ok by simp
  next
    assume "account_count s < MAX_ACCOUNTS
      \<and> snd (sign_up s uline pline aline) =
          s\<lparr>accounts := (accounts s)[account_count s :=
                 fresh_account (readln uline MAX_NAME_LEN) (readln pline MAX_PASS_LEN)
                   (readln aline MAX_AGENCY_LEN)],
            account_count := account_count s + 1\<rparr>"
    moreover have "account_count s < length (accounts s) \<Longrightarrow>
        balance ((accounts s)[account_count s := fresh_account a b c] ! account_count s) = 0" for a b c
      by (simp add: fresh_account_def)
    moreover have "length (accounts s) = MAX_ACCOUNTS"
      using inv by (simp add: bank_inv_def pix_inv_def)
    ultimately show ?thesis
      using r ok by (auto simp: balances_ok_def less_Suc_eq word_sle_eq)
  qed
next
  case (Login uline pline xs)
  let ?idx = "find_account_by_name s (readln uline MAX_NAME_LEN)"
  show ?thesis
  proof (cases "0 \<le> ?idx \<and> password (accounts s ! nat ?idx) = readln pline MAX_PASS_LEN")
    case True
    then have m: "account_menu s (nat ?idx) xs = Some r"
      using step Login by (simp add: log_in_def Let_def)
    have f: "ops_fit s (nat ?idx) xs" using fits Login True by (simp add: Let_def)
    have "nat ?idx < account_count s" using True by (intro find_account_by_name_lt) simp
    then show ?thesis using account_menu_balances[OF inv ok _ f m] by simp
  next
    case False
    then have "r = s" using step Login by (auto simp: log_in_def Let_def)
    then show ?thesis using ok by simp
  qed
qed

lemma balances_ok_sample: "balances_ok sample_bank"
  by (auto simp: balances_ok_def sample_bank_def sample_accounts_nth less_Suc_eq numeral_2_eq_2
      word_sle_eq)

lemma fit_reachable_balances: "fit_reachable s \<Longrightarrow> balances_ok s"
proof (induction rule: fit_reachable.induct)
  case (fit_init s)
  then show ?case using balances_ok_sample by (simp add: main_init_eq)
next
  case (fit_step s e r)
  then show ?case
    using main_step_balances[OF reachable_bank_inv[OF fit_reachable_reachable]] by blast
qed

text \<open>
  Claim C6. \<open>balance \<ge> 0\<close> holds for every live account in every state that is reached from
  the start by steps in which no credit overflows, that is, in which each deposit, credit
  advance and incoming transfer leaves the credited balance plus the amount below \<open>2\<^sup>6\<^sup>3\<close>:
  accounts start with balance 0, a withdrawal and the sender's side of a transfer first check
  \<open>amount \<le> balance\<close>, and the operations that credit require \<open>amount > 0\<close>.
\<close>

theorem balance_nonneg_without_overflow:
  assumes "fit_reachable s" and "i < account_count s"
  shows "0 \<le> sint (balance (accounts s ! i))"
  using fit_reachable_balances[OF assms(1)] assms(2) by (simp add: balances_ok_def word_sle_eq)

lemma parse_max: "read_cents_prompt ''92233720368547758.07'' = Some 9223372036854775807"
  by (simp add: read_cents_prompt_def readln_def parse_money_to_cents_def is_digit_def
      digit_val_def word_sless_alt c_isspace_def)

lemma parse_cent: "read_cents_prompt ''0.01'' = Some 1"
  by (simp add: read_cents_prompt_def readln_def parse_money_to_cents_def is_digit_def
      digit_val_def word_sless_alt c_isspace_def)

text \<open>
  Without the restriction the balance can become negative: user1 deposits 92233720368547758.07
  and then 0.01, and the 64-bit sum wraps.
\<close>

theorem balance_overflow_counterexample:
  "balance_after [Login ''user1'' ''pass''
      [Op_Deposit ''92233720368547758.07'', Op_Deposit ''0.01'']] 0
     = Some (- 9223372036854775808)"
  unfolding balance_after_def main_init_eq
  by (simp add: log_in_def Let_def find_user1_sample parse_max parse_cent
      case_prod_beta deposit_state word_sle_eq MAX_ACCOUNTS_def sample_accounts_nth)

lemma fit_advance: "fit_reachable advance_bank"
proof -
  have "event_fits sample_bank (Login ''user1'' ''pass'' [Op_Transfer ''user1pix'' ''50''])"
    by (simp add: Let_def find_user1_sample sample_accounts_nth parse_50 credit_fits_def
        split: option.splits prod.splits)
  then show ?thesis
    using fit_step[OF fit_init[OF main_init_eq] _ advance_step] by simp
qed

theorem balance_nonneg_without_overflow_witness:
  "fit_reachable advance_bank \<and> 0 < account_count advance_bank
   \<and> sint (balance (accounts advance_bank ! 0)) = 5000
   \<and> 0 \<le> sint (balance (accounts advance_bank ! 0))"
  using balance_nonneg_without_overflow[of advance_bank 0] fit_advance
  by (simp add: advance_bank_account)

lemma deposit_covers_amount:
  assumes "0 <s (amt :: cents_t)" "0 \<le>s b" "sint b + sint amt < 2 ^ 63"
  shows "amt \<le>s b + amt"
proof -
  have "sint (b + amt) = sint b + sint amt" using sint_add_pos_fits[OF assms(2,1,3)] by simp
  then show ?thesis using assms(2) by (simp add: word_sle_eq)
qed

text \<open>
  Claim C5. For every account and every amount \<open>> 0\<close>: \<open>withdraw\<close> succeeds if and only if
  \<open>amount \<le> balance\<close>; on success it decreases the balance by exactly the amount and logs one
  WITHDRAW record, on that account only; on failure it reports insufficient funds and leaves
  the state unchanged. A deposit of \<open>a\<close> followed by a withdrawal of the same \<open>a\<close> returns the
  balance to its original value when the original balance is non-negative and the sum of
  balance and \<open>a\<close> is below \<open>2\<^sup>6\<^sup>3\<close>.
\<close>

theorem withdraw_checks_balance:
  assumes "0 <s amt" and "i < length (accounts s)"
  shows "(amt \<le>s balance (accounts s ! i) \<longrightarrow>
            snd (withdraw s i amt) =
              upd_account s i (\<lambda>a. a\<lparr>balance := balance a - amt,
                txlog := txlog_push (txlog a) TX_WITHDRAW amt (withdraw_note amt)\<rparr>)
          \<and> fst (withdraw s i amt) \<noteq> ''Insufficient funds.''
          \<and> sint (balance (accounts (snd (withdraw s i amt)) ! i))
              = sint (balance (accounts s ! i)) - sint amt
          \<and> txlog (accounts (snd (withdraw s i amt)) ! i)
              = txlog_push (txlog (accounts s ! i)) TX_WITHDRAW amt (withdraw_note amt)
          \<and> (ring_ok (txlog (accounts s ! i)) \<longrightarrow>
               txlog_iter (txlog (accounts (snd (withdraw s i amt)) ! i))
                = (if count (txlog (accounts s ! i)) < TX_LOG_SIZE
                   then txlog_iter (txlog (accounts s ! i))
                   else tl (txlog_iter (txlog (accounts s ! i))))
                  @ [stored_tx (TX_WITHDRAW, amt, withdraw_note amt)])
          \<and> (\<forall>j. j \<noteq> i \<longrightarrow> accounts (snd (withdraw s i amt)) ! j = accounts s ! j))
     \<and> (\<not> amt \<le>s balance (accounts s ! i) \<longrightarrow> withdraw s i amt = (''Insufficient funds.'', s))
     \<and> (0 \<le>s balance (accounts s ! i) \<and> sint (balance (accounts s ! i)) + sint amt < 2 ^ 63 \<longrightarrow>
          fst (withdraw (snd (deposit s i amt)) i amt) \<noteq> ''Insufficient funds.''
          \<and> balance (accounts (snd (withdraw (snd (deposit s i amt)) i amt)) ! i)
              = balance (accounts s ! i))"
proof (intro conjI impI)
  have pos: "\<not> amt \<le>s 0" "0 \<le>s amt" using assms(1) by (simp_all add: word_sle_eq word_sless_alt)
  {
    assume le: "amt \<le>s balance (accounts s ! i)"
    show st: "snd (withdraw s i amt) =
              upd_account s i (\<lambda>a. a\<lparr>balance := balance a - amt,
                txlog := txlog_push (txlog a) TX_WITHDRAW amt (withdraw_note amt)\<rparr>)"
      using pos le by (simp add: withdraw_state)
    show "fst (withdraw s i amt) \<noteq> ''Insufficient funds.''"
      using pos le by (simp add: withdraw_def Let_def)
    show "sint (balance (accounts (snd (withdraw s i amt)) ! i))
              = sint (balance (accounts s ! i)) - sint amt"
      unfolding st using assms(2) sint_sub_le[OF pos(2) le] by simp
    show tl: "txlog (accounts (snd (withdraw s i amt)) ! i)
              = txlog_push (txlog (accounts s ! i)) TX_WITHDRAW amt (withdraw_note amt)"
      unfolding st using assms(2) by simp
    show "txlog_iter (txlog (accounts (snd (withdraw s i amt)) ! i))
                = (if count (txlog (accounts s ! i)) < TX_LOG_SIZE
                   then txlog_iter (txlog (accounts s ! i))
                   else tl (txlog_iter (txlog (accounts s ! i))))
                  @ [stored_tx (TX_WITHDRAW, amt, withdraw_note amt)]"
      if "ring_ok (txlog (accounts s ! i))"
      unfolding tl by (rule txlog_iter_push[OF that])
    show "\<forall>j. j \<noteq> i \<longrightarrow> accounts (snd (withdraw s i amt)) ! j = accounts s ! j"
      unfolding st by simp
  }
  show "withdraw s i amt = (''Insufficient funds.'', s)" if "\<not> amt \<le>s balance (accounts s ! i)"
    using pos that by (simp add: withdraw_def)
  {
    assume a: "0 \<le>s balance (accounts s ! i) \<and> sint (balance (accounts s ! i)) + sint amt < 2 ^ 63"
    let ?d = "snd (deposit s i amt)"
    have d: "?d = upd_account s i (\<lambda>a. a\<lparr>balance := balance a + amt,
             txlog := txlog_push (txlog a) TX_DEPOSIT amt (deposit_note amt)\<rparr>)"
      using pos by (simp add: deposit_state)
    have bd: "balance (accounts ?d ! i) = balance (accounts s ! i) + amt"
      unfolding d using assms(2) by simp
    have le: "amt \<le>s balance (accounts ?d ! i)"
      unfolding bd using deposit_covers_amount[OF assms(1)] a by simp
    show "fst (withdraw ?d i amt) \<noteq> ''Insufficient funds.''"
      using pos le by (simp add: withdraw_def Let_def)
    have "length (accounts ?d) = length (accounts s)" unfolding d by simp
    then show "balance (accounts (snd (withdraw ?d i amt)) ! i) = balance (accounts s ! i)"
      using pos le bd assms(2) by (simp add: withdraw_state)
  }
qed

text \<open>
  Without the restriction the round trip does not restore the balance: with a balance of
  92233720368547758.07, a deposit of 0.01 wraps the 64-bit sum, and the withdrawal of 0.01
  is then refused.
\<close>

theorem deposit_withdraw_counterexample:
  "balance_after [Login ''user1'' ''pass'' [Op_Deposit ''92233720368547758.07'']] 0
     = Some 9223372036854775807
   \<and> balance_after [Login ''user1'' ''pass''
        [Op_Deposit ''92233720368547758.07'', Op_Deposit ''0.01'', Op_Withdraw ''0.01'']] 0
     = Some (- 9223372036854775808)"
  unfolding balance_after_def main_init_eq
  by (simp add: log_in_def Let_def find_user1_sample parse_max parse_cent
      case_prod_beta deposit_state withdraw_state word_sle_eq MAX_ACCOUNTS_def sample_accounts_nth)

theorem withdraw_checks_balance_witness:
  "0 <s (3000 :: cents_t) \<and> 0 < length (accounts advance_bank)
   \<and> sint (balance (accounts advance_bank ! 0)) = 5000
   \<and> sint (balance (accounts (snd (withdraw advance_bank 0 3000)) ! 0)) = 2000
   \<and> withdraw advance_bank 0 6000 = (''Insufficient funds.'', advance_bank)
   \<and> balance (accounts (snd (withdraw (snd (deposit advance_bank 0 3000)) 0 3000)) ! 0) = 5000"
  using withdraw_checks_balance[of 3000 0 advance_bank]
    withdraw_checks_balance[of 6000 0 advance_bank]
  by (simp add: advance_bank_account word_sle_eq word_sless_alt advance_bank_def
      sample_accounts_nth MAX_ACCOUNTS_def)

text \<open>
  Claim C4. For every live account of a reachable state whose own alias is set, a transfer
  directed to that alias is a credit advance: it succeeds if and only if
  \<open>0 < amount \<le> credit_limit - credit_used\<close>; then \<open>credit_used\<close> increases by exactly the amount,
  the amount is added to the 64-bit balance (which increases by exactly the amount when the sum
  is below \<open>2\<^sup>6\<^sup>3\<close>), and one CREDIT_ADV record is logged, on that account only; otherwise the
  operation fails and leaves the state unchanged.
\<close>

theorem credit_advance_on_own_alias:
  assumes "reachable s" and "i < account_count s" and "pix_key (accounts s ! i) \<noteq> []"
  shows "(0 < sint amt \<and> sint amt \<le> sint (credit_limit (accounts s ! i)) - sint (credit_used (accounts s ! i))
          \<longrightarrow> (\<exists>r. transfer s i amt (pix_key (accounts s ! i))
                    = Some (''Added '' @ cents_str amt 64 @ '' to balance using credit.'', r)
               \<and> r = upd_account s i (\<lambda>a. a\<lparr>credit_used := credit_used a + amt,
                        balance := balance a + amt,
                        txlog := txlog_push (txlog a) TX_CREDIT_ADV amt (credit_note amt)\<rparr>)
               \<and> sint (credit_used (accounts r ! i)) = sint (credit_used (accounts s ! i)) + sint amt
               \<and> balance (accounts r ! i) = balance (accounts s ! i) + amt
               \<and> (sint (balance (accounts s ! i)) + sint amt < 2 ^ 63 \<longrightarrow>
                    sint (balance (accounts r ! i)) = sint (balance (accounts s ! i)) + sint amt)
               \<and> txlog_iter (txlog (accounts r ! i))
                   = (if count (txlog (accounts s ! i)) < TX_LOG_SIZE
                      then txlog_iter (txlog (accounts s ! i))
                      else tl (txlog_iter (txlog (accounts s ! i))))
                     @ [stored_tx (TX_CREDIT_ADV, amt, credit_note amt)]
               \<and> (\<forall>j. j \<noteq> i \<longrightarrow> accounts r ! j = accounts s ! j)
               \<and> account_count r = account_count s \<and> pix_table r = pix_table s))
     \<and> (sint amt \<le> 0 \<longrightarrow>
          transfer s i amt (pix_key (accounts s ! i)) = Some (''Invalid transfer amount.'', s))
     \<and> (sint (credit_limit (accounts s ! i)) - sint (credit_used (accounts s ! i)) < sint amt \<and> 0 < sint amt
          \<longrightarrow> transfer s i amt (pix_key (accounts s ! i)) = Some (''Not enough credit available.'', s))"
proof -
  let ?a = "accounts s ! i"
  have ok: "i < length (accounts s)" "acct_ok ?a"
    using bank_inv_acct_ok[OF reachable_bank_inv[OF assms(1)] assms(2)] by simp_all
  then have u: "0 \<le>s credit_used ?a" "credit_used ?a \<le>s credit_limit ?a" "ring_ok (txlog ?a)"
    by (simp_all add: acct_ok_def)
  have avail: "sint (credit_limit ?a - credit_used ?a) = sint (credit_limit ?a) - sint (credit_used ?a)"
    using sint_sub_le[OF u(1,2)] .
  note tr = transfer_own[OF assms(3) refl, of amt]
  let ?r = "upd_account s i (\<lambda>a. a\<lparr>credit_used := credit_used a + amt,
                        balance := balance a + amt,
                        txlog := txlog_push (txlog a) TX_CREDIT_ADV amt (credit_note amt)\<rparr>)"
  have succ: "transfer s i amt (pix_key ?a)
                    = Some (''Added '' @ cents_str amt 64 @ '' to balance using credit.'', ?r)
      \<and> sint (credit_used (accounts ?r ! i)) = sint (credit_used ?a) + sint amt
      \<and> balance (accounts ?r ! i) = balance ?a + amt
      \<and> (sint (balance ?a) + sint amt < 2 ^ 63 \<longrightarrow>
            sint (balance (accounts ?r ! i)) = sint (balance ?a) + sint amt)
      \<and> txlog_iter (txlog (accounts ?r ! i))
           = (if count (txlog ?a) < TX_LOG_SIZE then txlog_iter (txlog ?a)
              else tl (txlog_iter (txlog ?a)))
             @ [stored_tx (TX_CREDIT_ADV, amt, credit_note amt)]
      \<and> (\<forall>j. j \<noteq> i \<longrightarrow> accounts ?r ! j = accounts s ! j)
      \<and> account_count ?r = account_count s \<and> pix_table ?r = pix_table s"
    if a: "0 < sint amt \<and> sint amt \<le> sint (credit_limit ?a) - sint (credit_used ?a)"
  proof -
    have pos: "0 <s amt" and le: "amt \<le>s credit_limit ?a - credit_used ?a"
      using a avail by (simp_all add: word_sle_eq word_sless_alt)
    have 1: "transfer s i amt (pix_key ?a)
                    = Some (''Added '' @ cents_str amt 64 @ '' to balance using credit.'', ?r)"
      using tr pos le a by (simp add: word_sle_eq)
    have 2: "sint (credit_used ?a + amt) = sint (credit_used ?a) + sint amt"
      using credit_advance_sint[OF u(1,2) pos le] by simp
    have 3: "sint (balance ?a + amt) = sint (balance ?a) + sint amt"
      if "sint (balance ?a) + sint amt < 2 ^ 63"
      using that a sint64_range[of "balance ?a"] by (intro sint_add_fit) auto
    have 4: "txlog_iter (txlog_push (txlog ?a) TX_CREDIT_ADV amt (credit_note amt))
           = (if count (txlog ?a) < TX_LOG_SIZE then txlog_iter (txlog ?a)
              else tl (txlog_iter (txlog ?a)))
             @ [stored_tx (TX_CREDIT_ADV, amt, credit_note amt)]"
      by (rule txlog_iter_push[OF u(3)])
    show ?thesis using 1 2 3 4 ok(1) by simp
  qed
  have inval: "transfer s i amt (pix_key ?a) = Some (''Invalid transfer amount.'', s)"
    if "sint amt \<le> 0"
    using tr that by (simp add: word_sle_eq)
  have nocred: "transfer s i amt (pix_key ?a) = Some (''Not enough credit available.'', s)"
    if "sint (credit_limit ?a) - sint (credit_used ?a) < sint amt \<and> 0 < sint amt"
    using tr that avail by (simp add: word_sle_eq)
  show ?thesis using succ inval nocred by blast
qed

text \<open>
  Without the restriction on the balance: with a balance of 92233720368547758.07 an advance
  of 0.01 succeeds (\<open>credit_used\<close> goes from 0 to 1) and the balance wraps.
\<close>

theorem credit_advance_counterexample:
  "balance_after [Login ''user1'' ''pass'' [Op_Deposit ''92233720368547758.07'']] 0
     = Some 9223372036854775807
   \<and> credit_used_after [Login ''user1'' ''pass'' [Op_Deposit ''92233720368547758.07'']] 0 = Some 0
   \<and> credit_used_after [Login ''user1'' ''pass''
        [Op_Deposit ''92233720368547758.07'', Op_Transfer ''user1pix'' ''0.01'']] 0 = Some 1
   \<and> balance_after [Login ''user1'' ''pass''
        [Op_Deposit ''92233720368547758.07'', Op_Transfer ''user1pix'' ''0.01'']] 0
     = Some (- 9223372036854775808)"
proof -
  let ?s1 = "upd_account sample_bank 0 (\<lambda>a. a\<lparr>balance := balance a + 9223372036854775807,
             txlog := txlog_push (txlog a) TX_DEPOSIT 9223372036854775807
                (deposit_note 9223372036854775807)\<rparr>)"
  have d: "snd (deposit sample_bank 0 9223372036854775807) = ?s1"
    by (simp add: deposit_state word_sle_eq)
  have t: "transfer ?s1 0 1 ''user1pix'' =
      Some (''Added '' @ cents_str 1 64 @ '' to balance using credit.'',
        upd_account ?s1 0 (\<lambda>a. a\<lparr>credit_used := credit_used a + 1, balance := balance a + 1,
                 txlog := txlog_push (txlog a) TX_CREDIT_ADV 1 (credit_note 1)\<rparr>))"
    by (subst transfer_own) (simp_all add: sample_accounts_nth word_sle_eq MAX_ACCOUNTS_def)
  show ?thesis
    unfolding balance_after_def credit_used_after_def main_init_eq
    using t
    by (simp add: log_in_def Let_def find_user1_sample parse_max parse_cent
      case_prod_beta d word_sle_eq MAX_ACCOUNTS_def sample_accounts_nth)
qed

lemma advance_6000:
  "transfer advance_bank 0 6000 ''user1pix'' = Some (''Not enough credit available.'', advance_bank)"
  by (subst transfer_own)
     (simp_all add: advance_bank_def sample_accounts_nth word_sle_eq MAX_ACCOUNTS_def)

theorem credit_advance_on_own_alias_witness:
  "reachable sample_bank \<and> 0 < account_count sample_bank
   \<and> pix_key (accounts sample_bank ! 0) = ''user1pix''
   \<and> sint (credit_limit (accounts sample_bank ! 0)) = 10000
   \<and> sint (credit_used (accounts sample_bank ! 0)) = 0
   \<and> transfer sample_bank 0 5000 ''user1pix''
       = Some (''Added '' @ cents_str 5000 64 @ '' to balance using credit.'', advance_bank)
   \<and> sint (credit_used (accounts advance_bank ! 0)) = 5000
   \<and> sint (balance (accounts advance_bank ! 0)) = sint (balance (accounts sample_bank ! 0)) + 5000
   \<and> transfer advance_bank 0 6000 ''user1pix''
       = Some (''Not enough credit available.'', advance_bank)"
  using credit_advance_on_own_alias[OF reachable_sample, of 0 5000]
    credit_advance_on_own_alias[OF reachable_advance, of 0 6000] reachable_sample
  by (simp add: advance_bank_account sample_accounts_nth)
     (simp add: advance_bank_def sample_accounts_nth MAX_ACCOUNTS_def)

(*THMS*)

end
